theory Spec2Isabelle
  imports Complex_Main
begin

section \<open>Data model\<close>

text \<open>
  The fantasy-draft simulator is written in TypeScript. Its numbers are JavaScript
  numbers; the model reads counts and indices (array lengths, pick numbers, team
  indices) as \<open>nat\<close> and projections (points, VOR, scores) as \<open>real\<close>, that
  is, as the exact values the floating-point operations approximate.
\<close>

datatype Position = QB | RB | WR | TE

datatype Scoring = STANDARD | HALF_PPR | PPR

datatype DraftPhase = Setup | Drafting | Complete

section \<open>Turn scheduler (utils.ts)\<close>

text \<open>
  \<^verbatim>\<open>
  export function getSnakeDraftTeamIndex(pickNumber: number, numTeams: number): number {
    const round = Math.floor(pickNumber / numTeams);
    const pickInRound = pickNumber % numTeams;
    return round % 2 === 0 ? pickInRound : numTeams - 1 - pickInRound;
  }
  \<close>
  The division is the division of JavaScript numbers followed by \<open>Math.floor\<close>, so
  the model divides in \<open>real\<close> and takes the floor. With \<open>numTeams = 0\<close> the
  quotient is \<open>Infinity\<close> or \<open>NaN\<close>, the remainder is \<open>NaN\<close>, the test
  \<open>round % 2 === 0\<close> fails and the result is \<open>NaN\<close>: the model returns \<open>None\<close>.
\<close>

definition getSnakeDraftTeamIndex :: "nat \<Rightarrow> nat \<Rightarrow> nat option" where
  "getSnakeDraftTeamIndex pickNumber numTeams =
     (if numTeams = 0 then None
      else
        let round_no = nat \<lfloor>real pickNumber / real numTeams\<rfloor>;
            pickInRound = pickNumber mod numTeams
        in Some (if round_no mod 2 = 0 then pickInRound else numTeams - 1 - pickInRound))"

text \<open>
  The scheduler as the specification words it: \<open>round = pick div N\<close>,
  \<open>positionInRound = pick mod N\<close>, the position itself on even rounds and its
  mirror image on odd rounds.
\<close>

definition turnScheduler_spec :: "nat \<Rightarrow> nat \<Rightarrow> nat" where
  "turnScheduler_spec pick_no N =
     (let round_no = pick_no div N;
          positionInRound = pick_no mod N
      in if even round_no then positionInRound else N - 1 - positionInRound)"

section \<open>Constants (constants.ts)\<close>

definition NUM_TEAMS :: nat where
  "NUM_TEAMS = 12"

definition ROUNDS :: nat where
  "ROUNDS = 15"

definition ROSTER_SIZE :: nat where
  "ROSTER_SIZE = 15"

record RosterTarget =
  min_target :: nat
  max_target :: nat

fun ROSTER_TARGETS :: "Position \<Rightarrow> RosterTarget" where
  "ROSTER_TARGETS QB = \<lparr>min_target = 1, max_target = 2\<rparr>"
| "ROSTER_TARGETS RB = \<lparr>min_target = 4, max_target = 6\<rparr>"
| "ROSTER_TARGETS WR = \<lparr>min_target = 4, max_target = 6\<rparr>"
| "ROSTER_TARGETS TE = \<lparr>min_target = 1, max_target = 2\<rparr>"

fun POSITION_VALUE :: "Position \<Rightarrow> real" where
  "POSITION_VALUE RB = 115 / 100"
| "POSITION_VALUE WR = 11 / 10"
| "POSITION_VALUE TE = 1"
| "POSITION_VALUE QB = 95 / 100"

fun REPLACEMENT_RANK :: "Position \<Rightarrow> nat" where
  "REPLACEMENT_RANK QB = 12"
| "REPLACEMENT_RANK RB = 24"
| "REPLACEMENT_RANK WR = 24"
| "REPLACEMENT_RANK TE = 12"

section \<open>Permissive number parsing (csv.ts)\<close>

text \<open>
  A CSV row is a JavaScript object from column names to strings. A lookup of a column
  the row lacks is \<open>undefined\<close>; \<open>toNumber\<close> also accepts numbers.
\<close>

type_synonym CSVRow = "string \<rightharpoonup> string"

datatype csv_value = VNumber real | VString string | VUndefined

definition rowGet :: "CSVRow \<Rightarrow> string \<Rightarrow> csv_value" where
  "rowGet row key = (case row key of None \<Rightarrow> VUndefined | Some v \<Rightarrow> VString v)"

text \<open>
  \<open>parseFloat\<close> is the JavaScript builtin: it skips leading white space (here the
  white space characters of ASCII; a string is a list of bytes) and reads the
  longest prefix that is a decimal literal (an optional sign, then digits with an
  optional fraction, or a fraction alone, then an optional exponent that counts only
  when it has a digit). The model returns the exact value of that literal, and \<open>None\<close>
  where the builtin returns a number that is not finite: \<open>NaN\<close> when no prefix is a
  literal, and the literal \<open>Infinity\<close>. Literals beyond the range of a double are read
  at their exact value.
\<close>

definition isDigit :: "char \<Rightarrow> bool" where
  "isDigit c = (c \<in> set ''0123456789'')"

definition isWhiteSpace :: "char \<Rightarrow> bool" where
  "isWhiteSpace c = (c \<in> set [CHR '' '', CHR 0x09, CHR 0x0A, CHR 0x0B, CHR 0x0C, CHR 0x0D])"

definition digitValue :: "char \<Rightarrow> nat" where
  "digitValue c = of_char c - 48"

definition decimalValue :: "string \<Rightarrow> nat" where
  "decimalValue ds = foldl (\<lambda>acc c. 10 * acc + digitValue c) 0 ds"

definition splitSign :: "string \<Rightarrow> int \<times> string" where
  "splitSign s =
     (case s of
        [] \<Rightarrow> (1, [])
      | c # r \<Rightarrow> if c = CHR ''-'' then (- 1, r) else if c = CHR ''+'' then (1, r) else (1, s))"

definition exponentPart :: "string \<Rightarrow> int" where
  "exponentPart s =
     (case s of
        [] \<Rightarrow> 0
      | c # r \<Rightarrow>
          if c = CHR ''e'' \<or> c = CHR ''E'' then
            (let (sg, r2) = splitSign r;
                 ds = takeWhile isDigit r2
             in if ds = [] then 0 else sg * int (decimalValue ds))
          else 0)"

definition pow10 :: "int \<Rightarrow> real" where
  "pow10 e = (if 0 \<le> e then 10 ^ nat e else 1 / 10 ^ nat (- e))"

definition parseFloat :: "string \<Rightarrow> real option" where
  "parseFloat s =
     (let t = dropWhile isWhiteSpace s;
          (sg, u) = splitSign t;
          ip = takeWhile isDigit u;
          afterInt = dropWhile isDigit u;
          (fp, rest) =
            (case afterInt of
               [] \<Rightarrow> ([], [])
             | c # r \<Rightarrow>
                 if c = CHR ''.'' then (takeWhile isDigit r, dropWhile isDigit r)
                 else ([], afterInt))
      in if ip = [] \<and> fp = [] then None
         else Some (real_of_int sg
                    * (real (decimalValue ip) + real (decimalValue fp) / 10 ^ length fp)
                    * pow10 (exponentPart rest)))"

text \<open>
  \<^verbatim>\<open>
  export function toNumber(value: string | number | undefined, fallback = 0): number {
    if (typeof value === "number") return value;
    if (value == null) return fallback;
    const n = parseFloat(String(value).replace(/,/g, ""));
    return Number.isFinite(n) ? n : fallback;
  }
  \<close>
\<close>

definition toNumber :: "csv_value \<Rightarrow> real \<Rightarrow> real" where
  "toNumber v fallback =
     (case v of
        VNumber n \<Rightarrow> n
      | VUndefined \<Rightarrow> fallback
      | VString str \<Rightarrow>
          (case parseFloat (filter (\<lambda>c. c \<noteq> CHR '','') str) of
             Some n \<Rightarrow> n
           | None \<Rightarrow> fallback))"

section \<open>Scoring function (scoring.ts)\<close>

text \<open>\<open>Math.round\<close> rounds to the nearest integer, a tie towards plus infinity.\<close>

definition Math_round :: "real \<Rightarrow> int" where
  "Math_round x = \<lfloor>x + 1 / 2\<rfloor>"

text \<open>
  \<^verbatim>\<open>
  const scoringPassYd = 1 / 25; const scoringPassTD = 4; const scoringINT = -2;
  const scoringRushRecYd = 1 / 10; const scoringRushRecTD = 6;
  const pprFactor = scoring === "PPR" ? 1 : scoring === "HALF_PPR" ? 0.5 : 0;
  let points = 0;
  points += passYds * scoringPassYd + passTD * scoringPassTD + passInt * scoringINT;
  points += rushYds * scoringRushRecYd + rushTD * scoringRushRecTD;
  points += recYds * scoringRushRecYd + recTD * scoringRushRecTD + rec * pprFactor;
  return Math.round(points * 100) / 100;
  \<close>
\<close>

definition computeFantasyPoints :: "CSVRow \<Rightarrow> Position \<Rightarrow> Scoring \<Rightarrow> real" where
  "computeFantasyPoints row pos scoring =
     (let passYds = toNumber (rowGet row ''PassingYDS_pred'') 0;
          passTD = toNumber (rowGet row ''PassingTD_pred'') 0;
          passInt = toNumber (rowGet row ''PassingInt_pred'') 0;
          rushYds = toNumber (rowGet row ''RushingYDS_pred'') 0;
          rushTD = toNumber (rowGet row ''RushingTD_pred'') 0;
          rec = toNumber (rowGet row ''ReceivingRec_pred'') 0;
          recYds = toNumber (rowGet row ''ReceivingYDS_pred'') 0;
          recTD = toNumber (rowGet row ''ReceivingTD_pred'') 0;
          scoringPassYd = 1 / 25;
          scoringPassTD = 4;
          scoringINT = - 2;
          scoringRushRecYd = 1 / 10;
          scoringRushRecTD = 6;
          pprFactor = (if scoring = PPR then 1 else if scoring = HALF_PPR then 1 / 2 else 0);
          pts0 = 0;
          pts1 = pts0 + (passYds * scoringPassYd + passTD * scoringPassTD + passInt * scoringINT);
          pts2 = pts1 + (rushYds * scoringRushRecYd + rushTD * scoringRushRecTD);
          pts3 = pts2 + (recYds * scoringRushRecYd + recTD * scoringRushRecTD + rec * pprFactor)
      in real_of_int (Math_round (pts3 * 100)) / 100)"

subsection \<open>The scoring rule of the specification\<close>

text \<open>The number the scoring function reads from a column of the row.\<close>

definition statOf :: "CSVRow \<Rightarrow> string \<Rightarrow> real" where
  "statOf row key = toNumber (rowGet row key) 0"

text \<open>
  The scoring rule as the specification words it: the weighted sum of the eight
  statistics, with the reception weight of the ruleset, rounded to two decimal places.
\<close>

definition pprWeight_spec :: "Scoring \<Rightarrow> real" where
  "pprWeight_spec scoring = (case scoring of STANDARD \<Rightarrow> 0 | HALF_PPR \<Rightarrow> 5 / 10 | PPR \<Rightarrow> 1)"

definition rawScore_spec :: "(string \<Rightarrow> real) \<Rightarrow> Scoring \<Rightarrow> real" where
  "rawScore_spec stat scoring =
     stat ''PassingYDS_pred'' * (4 / 100) + stat ''PassingTD_pred'' * 4
     + stat ''PassingInt_pred'' * (- 2)
     + stat ''RushingYDS_pred'' * (1 / 10) + stat ''RushingTD_pred'' * 6
     + stat ''ReceivingYDS_pred'' * (1 / 10) + stat ''ReceivingTD_pred'' * 6
     + stat ''ReceivingRec_pred'' * pprWeight_spec scoring"

definition roundTo2_spec :: "real \<Rightarrow> real" where
  "roundTo2_spec x = real_of_int (round (x * 100)) / 100"

section \<open>Players, picks and rosters (types.ts)\<close>

record DraftPlayer =
  id_p :: string
  name :: string
  position :: Position
  points :: real
  vor :: real
  tier :: nat
  raw :: CSVRow

record DraftPick =
  pk_round :: nat
  pk_pick :: nat
  pk_overall :: nat
  pk_teamIndex :: nat
  pk_player :: DraftPlayer

text \<open>A roster holds one list of players for each position key.\<close>

type_synonym TeamRoster = "Position \<Rightarrow> DraftPlayer list"

text \<open>
  \<open>xs.sort((a, b) => f(b) - f(a))\<close> sorts by \<open>f\<close>, largest first; the sort of
  JavaScript arrays is stable.
\<close>

definition sortDesc :: "('a \<Rightarrow> real) \<Rightarrow> 'a list \<Rightarrow> 'a list" where
  "sortDesc f xs = sort_key (\<lambda>x. - f x) xs"

definition sumPoints :: "DraftPlayer list \<Rightarrow> real" where
  "sumPoints ps = foldl (\<lambda>acc p. acc + points p) 0 ps"

section \<open>Roster utilities (utils.ts)\<close>

definition createEmptyRoster :: TeamRoster where
  "createEmptyRoster = (\<lambda>pos. [])"

definition countRosterPositions :: "TeamRoster \<Rightarrow> Position \<Rightarrow> nat" where
  "countRosterPositions roster = (\<lambda>pos. length (roster pos))"

definition getTeamTotalPoints :: "TeamRoster \<Rightarrow> real" where
  "getTeamTotalPoints roster = sumPoints (roster QB @ roster RB @ roster WR @ roster TE)"

text \<open>
  \<^verbatim>\<open>
  const qb = roster.QB.slice(0, 1);  const rb = roster.RB.slice(0, 2);
  const wr = roster.WR.slice(0, 2);  const te = roster.TE.slice(0, 1);
  const flexCandidates = [...roster.RB.slice(2), ...roster.WR.slice(2), ...roster.TE.slice(1)]
    .sort((a, b) => b.points - a.points);
  const flex = flexCandidates.slice(0, 1);
  return [...qb, ...rb, ...wr, ...te, ...flex].reduce((sum, p) => sum + p.points, 0);
  \<close>
\<close>

definition getStarterPoints :: "TeamRoster \<Rightarrow> real" where
  "getStarterPoints roster =
     (let qb = take 1 (roster QB);
          rb = take 2 (roster RB);
          wr = take 2 (roster WR);
          te = take 1 (roster TE);
          flexCandidates =
            sortDesc points (drop 2 (roster RB) @ drop 2 (roster WR) @ drop 1 (roster TE));
          flex = take 1 flexCandidates
      in sumPoints (qb @ rb @ wr @ te @ flex))"

fun isStarterSlot :: "Position \<Rightarrow> nat \<Rightarrow> bool" where
  "isStarterSlot QB index = (index = 0)"
| "isStarterSlot TE index = (index = 0)"
| "isStarterSlot pos index = (index \<le> 1)"

text \<open>
  The starting-lineup rule as the specification words it: the best 1 QB, 2 RB, 2 WR and
  1 TE by points, and a flex slot for the best of the players left over.
\<close>

definition bestN :: "nat \<Rightarrow> DraftPlayer list \<Rightarrow> DraftPlayer list" where
  "bestN n ps = take n (sortDesc points ps)"

definition beyondBestN :: "nat \<Rightarrow> DraftPlayer list \<Rightarrow> DraftPlayer list" where
  "beyondBestN n ps = drop n (sortDesc points ps)"

definition starterPoints_spec :: "TeamRoster \<Rightarrow> real" where
  "starterPoints_spec roster =
     sum_list (map points (bestN 1 (roster QB)))
     + sum_list (map points (bestN 2 (roster RB)))
     + sum_list (map points (bestN 2 (roster WR)))
     + sum_list (map points (bestN 1 (roster TE)))
     + sum_list (map points (bestN 1
         (beyondBestN 2 (roster RB) @ beyondBestN 2 (roster WR) @ beyondBestN 1 (roster TE))))"

definition sortedByPointsDesc :: "DraftPlayer list \<Rightarrow> bool" where
  "sortedByPointsDesc ps = sorted_wrt (\<lambda>a b. points b \<le> points a) ps"

section \<open>Player valuation (useDraft, hooks.ts; DraftPage, page.tsx)\<close>

text \<open>
  The loader builds a player with the object literal
  \<^verbatim>\<open>{ id: `${pos}-${entry.name}`, name: entry.name, position: pos, points: entry.points,
    vor: 0, tier: 0, raw: entry.row }\<close>.
\<close>

definition positionName :: "Position \<Rightarrow> string" where
  "positionName pos = (case pos of QB \<Rightarrow> ''QB'' | RB \<Rightarrow> ''RB'' | WR \<Rightarrow> ''WR'' | TE \<Rightarrow> ''TE'')"

definition newPlayer :: "Position \<Rightarrow> string \<Rightarrow> real \<Rightarrow> CSVRow \<Rightarrow> DraftPlayer" where
  "newPlayer pos nm pts row =
     \<lparr>id_p = positionName pos @ ''-'' @ nm, name = nm, position = pos, points = pts,
      vor = 0, tier = 0, raw = row\<rparr>"

text \<open>
  After the rows of a position are scored and deduplicated, its players are sorted by
  points and given their VOR and tier:
  \<^verbatim>\<open>
  playersByPosition[pos].sort((a, b) => b.points - a.points);
  ...
  const replacementValue = players[REPLACEMENT_RANK[pos] - 1]?.points ?? 0;
  players.forEach((p, idx) => {
    p.vor = p.points - replacementValue;
    p.tier = Math.floor(idx / 4) + 1;
  });
  \<close>
  An index outside the array (also index \<open>-1\<close>) reads \<open>undefined\<close>, and the
  replacement value is 0.
\<close>

definition sortByPoints :: "DraftPlayer list \<Rightarrow> DraftPlayer list" where
  "sortByPoints players = sortDesc points players"

definition replacementValue :: "nat \<Rightarrow> DraftPlayer list \<Rightarrow> real" where
  "replacementValue k players =
     (if 1 \<le> k \<and> k - 1 < length players then points (players ! (k - 1)) else 0)"

definition calcVOR :: "Position \<Rightarrow> DraftPlayer list \<Rightarrow> DraftPlayer list" where
  "calcVOR pos players =
     (let rv = replacementValue (REPLACEMENT_RANK pos) players
      in map (\<lambda>(idx, p). p\<lparr>vor := points p - rv, tier := nat \<lfloor>real idx / 4\<rfloor> + 1\<rparr>)
           (zip [0..<length players] players))"

definition valuatePositions :: "(Position \<Rightarrow> DraftPlayer list) \<Rightarrow> Position \<Rightarrow> DraftPlayer list" where
  "valuatePositions playersByPosition = (\<lambda>pos. calcVOR pos (sortByPoints (playersByPosition pos)))"

text \<open>
  \<open>Object.values(playersByPosition).flat()\<close> lists the positions in the order of the
  object's keys: QB, RB, WR, TE. The hook \<open>useDraft\<close> then sorts with
  \<^verbatim>\<open>all.sort((a, b) => b.vor - a.vor)\<close>
  under the comment "Combine and sort all players by adjusted VOR"; the page component
  \<open>DraftPage\<close> sorts with
  \<^verbatim>\<open>all.sort((a, b) => b.vor * POSITION_VALUE[b.position] - a.vor * POSITION_VALUE[a.position])\<close>
  (written there with two local constants).
\<close>

definition flatPositions :: "(Position \<Rightarrow> DraftPlayer list) \<Rightarrow> DraftPlayer list" where
  "flatPositions playersByPosition = concat (map playersByPosition [QB, RB, WR, TE])"

definition weightedVor :: "DraftPlayer \<Rightarrow> real" where
  "weightedVor p = vor p * POSITION_VALUE (position p)"

definition loadPlayers_all :: "(Position \<Rightarrow> DraftPlayer list) \<Rightarrow> DraftPlayer list" where
  "loadPlayers_all playersByPosition =
     sortDesc vor (flatPositions (valuatePositions playersByPosition))"

definition loadAll_all :: "(Position \<Rightarrow> DraftPlayer list) \<Rightarrow> DraftPlayer list" where
  "loadAll_all playersByPosition =
     sortDesc weightedVor (flatPositions (valuatePositions playersByPosition))"

definition sortedByWeightedVor :: "DraftPlayer list \<Rightarrow> bool" where
  "sortedByWeightedVor ps = sorted_wrt (\<lambda>a b. weightedVor b \<le> weightedVor a) ps"

section \<open>Opponent heuristic (getCPUPick in useDraft)\<close>

text \<open>
  The heuristic multiplies each candidate's score by \<open>0.95 + Math.random() * 0.1\<close>.
  The model takes the random numbers as a parameter: \<open>rnd i\<close> is the number drawn for
  the candidate at index \<open>i\<close>.
\<close>

definition neededPositionsOf :: "(Position \<Rightarrow> nat) \<Rightarrow> Position list" where
  "neededPositionsOf counts =
     filter (\<lambda>pos. counts pos < min_target (ROSTER_TARGETS pos)) [QB, RB, WR, TE]"

definition candidateScore ::
  "(Position \<Rightarrow> nat) \<Rightarrow> Position list \<Rightarrow> nat \<Rightarrow> real \<Rightarrow> DraftPlayer \<Rightarrow> real" where
  "candidateScore counts neededPositions round_no r p =
     (let s0 = vor p * POSITION_VALUE (position p);
          s1 = (if position p \<in> set neededPositions then s0 * (13 / 10) else s0);
          s2 = (if tier p \<le> 2 then s1 * (11 / 10) else s1);
          s3 = (if round_no \<ge> 8 \<and> (position p = QB \<or> position p = TE)
                   \<and> counts (position p) = 0
                then s2 * (125 / 100) else s2)
      in s3 * (95 / 100 + r * (1 / 10)))"

definition getCPUPick ::
  "(nat \<Rightarrow> real) \<Rightarrow> DraftPlayer list \<Rightarrow> TeamRoster \<Rightarrow> nat \<Rightarrow> DraftPlayer option" where
  "getCPUPick rnd available teamRoster round_no =
     (if available = [] then None
      else
        let counts = (\<lambda>pos. length (teamRoster pos));
            totalPicks = counts QB + counts RB + counts WR + counts TE;
            picksRemaining = int ROSTER_SIZE - int totalPicks;
            neededPositions = neededPositionsOf counts;
            filtered =
              filter (\<lambda>p. counts (position p) < max_target (ROSTER_TARGETS (position p)))
                available;
            candidates = (if filtered = [] then available else filtered);
            urgentCandidates = filter (\<lambda>p. position p \<in> set neededPositions) candidates;
            candidates' =
              (if neededPositions \<noteq> []
                  \<and> picksRemaining \<le> int (length neededPositions) + 2
                  \<and> urgentCandidates \<noteq> []
               then urgentCandidates else candidates);
            scored =
              map (\<lambda>(i, p). (p, candidateScore counts neededPositions round_no (rnd i) p))
                (zip [0..<length candidates'] candidates');
            ranked = sortDesc snd scored
        in case ranked of
             (p, sc) # others \<Rightarrow> Some p
           | [] \<Rightarrow> (case available of a # others \<Rightarrow> Some a | [] \<Rightarrow> None))"

section \<open>Draft state machine (useDraft)\<close>

text \<open>
  The state of the hook: the React state variables the draft logic reads and writes.
  \<open>userPickPosition\<close> is the 1-based draft slot chosen on the setup screen.
\<close>

record DraftState =
  allPlayers :: "DraftPlayer list"
  availablePlayers :: "DraftPlayer list"
  draftPicks :: "DraftPick list"
  teamRosters :: "TeamRoster list"
  draftPhase :: DraftPhase
  userPickPosition :: int
  autopick :: bool
  selectedTeamView :: int

text \<open>
  Reading a property of \<open>undefined\<close> (a roster index outside \<open>teamRosters\<close>) throws a
  \<open>TypeError\<close>.
\<close>

datatype error = TypeError

definition currentPick :: "DraftState \<Rightarrow> nat" where
  "currentPick s = length (draftPicks s)"

definition currentRound :: "DraftState \<Rightarrow> nat" where
  "currentRound s = nat \<lfloor>real (currentPick s) / real NUM_TEAMS\<rfloor> + 1"

definition currentTeamIndex :: "DraftState \<Rightarrow> nat option" where
  "currentTeamIndex s = getSnakeDraftTeamIndex (currentPick s) NUM_TEAMS"

definition userTeamIndex :: "DraftState \<Rightarrow> int" where
  "userTeamIndex s = userPickPosition s - 1"

definition isUserTurn :: "DraftState \<Rightarrow> bool" where
  "isUserTurn s =
     (case currentTeamIndex s of None \<Rightarrow> False | Some t \<Rightarrow> int t = userTeamIndex s)"

definition isDraftComplete :: "DraftState \<Rightarrow> bool" where
  "isDraftComplete s = (currentPick s \<ge> ROUNDS * NUM_TEAMS)"

text \<open>
  \<^verbatim>\<open>
  const makePick = useCallback((player: DraftPlayer) => {
      const pickNumber = draftPicks.length;
      const round = Math.floor(pickNumber / NUM_TEAMS) + 1;
      const pickInRound = (pickNumber % NUM_TEAMS) + 1;
      const teamIndex = getSnakeDraftTeamIndex(pickNumber, NUM_TEAMS);
      const pick: DraftPick = { round, pick: pickInRound, overall: pickNumber + 1, teamIndex, player };
      setDraftPicks((prev) => [...prev, pick]);
      setAvailablePlayers((prev) => prev.filter((p) => p.id !== player.id));
      setTeamRosters((prev) => {
        const updated = [...prev];
        updated[teamIndex] = { ...updated[teamIndex],
          [player.position]: [...updated[teamIndex][player.position], player] };
        return updated;
      });
      if (pickNumber + 1 >= ROUNDS * NUM_TEAMS) { setDraftPhase("complete"); }
    }, [draftPicks.length]);
  \<close>
  One call is one transition of the state.
\<close>

definition addToRoster :: "TeamRoster \<Rightarrow> DraftPlayer \<Rightarrow> TeamRoster" where
  "addToRoster roster player = roster(position player := roster (position player) @ [player])"

definition makePick :: "DraftPlayer \<Rightarrow> DraftState \<Rightarrow> error + DraftState" where
  "makePick player s =
     (let pickNumber = length (draftPicks s);
          round_no = nat \<lfloor>real pickNumber / real NUM_TEAMS\<rfloor> + 1;
          pickInRound = pickNumber mod NUM_TEAMS + 1
      in case getSnakeDraftTeamIndex pickNumber NUM_TEAMS of
           None \<Rightarrow> Inl TypeError
         | Some t \<Rightarrow>
             if t < length (teamRosters s) then
               Inr (s\<lparr>draftPicks := draftPicks s @
                         [\<lparr>pk_round = round_no, pk_pick = pickInRound,
                           pk_overall = pickNumber + 1, pk_teamIndex = t, pk_player = player\<rparr>],
                       availablePlayers :=
                         filter (\<lambda>p. id_p p \<noteq> id_p player) (availablePlayers s),
                       teamRosters :=
                         (teamRosters s)[t := addToRoster (teamRosters s ! t) player],
                       draftPhase :=
                         (if pickNumber + 1 \<ge> ROUNDS * NUM_TEAMS then Complete
                          else draftPhase s)\<rparr>)
             else Inl TypeError)"

text \<open>
  \<^verbatim>\<open>
  const handleUserPick = useCallback((player: DraftPlayer) => {
      if (!isUserTurn || draftPhase !== "drafting") return;
      makePick(player);
    }, [isUserTurn, draftPhase, makePick]);
  \<close>
\<close>

definition handleUserPick :: "DraftPlayer \<Rightarrow> DraftState \<Rightarrow> error + DraftState" where
  "handleUserPick player s =
     (if \<not> isUserTurn s \<or> draftPhase s \<noteq> Drafting then Inr s else makePick player s)"

text \<open>
  The auto-draft effect and its timer callback, as one step:
  \<^verbatim>\<open>
  if (draftPhase !== "drafting") return;
  if (isUserTurn && !autopick) return;
  if (availablePlayers.length === 0) return;
  const timer = setTimeout(() => {
    const teamRoster = teamRosters[currentTeamIndex];
    const pick = getCPUPick(availablePlayers, teamRoster, currentRound);
    if (pick) makePick(pick);
  }, DRAFT_SPEED_DELAYS[draftSpeed]);
  \<close>
\<close>

definition autoDraft :: "(nat \<Rightarrow> real) \<Rightarrow> DraftState \<Rightarrow> error + DraftState" where
  "autoDraft rnd s =
     (if draftPhase s \<noteq> Drafting then Inr s
      else if isUserTurn s \<and> \<not> autopick s then Inr s
      else if availablePlayers s = [] then Inr s
      else case currentTeamIndex s of
             None \<Rightarrow> Inl TypeError
           | Some t \<Rightarrow>
               if t < length (teamRosters s) then
                 (case getCPUPick rnd (availablePlayers s) (teamRosters s ! t) (currentRound s) of
                    None \<Rightarrow> Inr s
                  | Some p \<Rightarrow> makePick p s)
               else Inl TypeError)"

definition startDraft :: "DraftState \<Rightarrow> DraftState" where
  "startDraft s =
     s\<lparr>draftPicks := [],
       availablePlayers := allPlayers s,
       teamRosters := replicate NUM_TEAMS createEmptyRoster,
       draftPhase := Drafting,
       selectedTeamView := userTeamIndex s\<rparr>"

definition resetDraft :: "DraftState \<Rightarrow> DraftState" where
  "resetDraft s =
     s\<lparr>draftPhase := Setup,
       draftPicks := [],
       availablePlayers := allPlayers s,
       teamRosters := replicate NUM_TEAMS createEmptyRoster,
       autopick := False\<rparr>"

text \<open>
  The state of the hook once the players are loaded and the rosters initialised, before
  the draft is started.
\<close>

definition loadedState :: "DraftPlayer list \<Rightarrow> int \<Rightarrow> bool \<Rightarrow> DraftState" where
  "loadedState allp userPos auto =
     \<lparr>allPlayers = allp, availablePlayers = allp, draftPicks = [],
      teamRosters = replicate NUM_TEAMS createEmptyRoster, draftPhase = Setup,
      userPickPosition = userPos, autopick = auto, selectedTeamView = 0\<rparr>"

subsection \<open>Runs of the draft\<close>

text \<open>
  A run applies picks one after the other and stops at the first error. \<open>applyPicks\<close>
  calls \<open>makePick\<close> directly; \<open>runDraft\<close> goes through the two entry points of the
  engine, a click of the user on a player and the firing of the auto-draft timer.
\<close>

fun applyPicks :: "DraftPlayer list \<Rightarrow> DraftState \<Rightarrow> error + DraftState" where
  "applyPicks [] s = Inr s"
| "applyPicks (p # ps) s =
     (case makePick p s of Inl e \<Rightarrow> Inl e | Inr s' \<Rightarrow> applyPicks ps s')"

datatype DraftEvent = UserClick DraftPlayer | TimerFires "nat \<Rightarrow> real"

fun applyEvent :: "DraftEvent \<Rightarrow> DraftState \<Rightarrow> error + DraftState" where
  "applyEvent (UserClick p) s = handleUserPick p s"
| "applyEvent (TimerFires rnd) s = autoDraft rnd s"

fun runDraft :: "DraftEvent list \<Rightarrow> DraftState \<Rightarrow> error + DraftState" where
  "runDraft [] s = Inr s"
| "runDraft (e # es) s =
     (case applyEvent e s of Inl err \<Rightarrow> Inl err | Inr s' \<Rightarrow> runDraft es s')"

text \<open>Every bucket of the roster is within the maximum configured for its position.\<close>

definition withinMax :: "TeamRoster \<Rightarrow> bool" where
  "withinMax roster =
     list_all (\<lambda>pos. length (roster pos) \<le> max_target (ROSTER_TARGETS pos)) [QB, RB, WR, TE]"

text \<open>
  A pick drawn from the pool whose id no other player of the pool has, and a sequence of
  such picks, each checked against the pool as it is when the pick is made.
\<close>

definition drawnWithUniqueId :: "DraftPlayer \<Rightarrow> DraftPlayer list \<Rightarrow> bool" where
  "drawnWithUniqueId p pool =
     (p \<in> set pool \<and> length (filter (\<lambda>q. id_p q = id_p p) pool) = 1)"

fun picksFromPool :: "DraftPlayer list \<Rightarrow> DraftState \<Rightarrow> bool" where
  "picksFromPool [] s = True"
| "picksFromPool (p # ps) s =
     (drawnWithUniqueId p (availablePlayers s)
      \<and> (case makePick p s of Inl e \<Rightarrow> False | Inr s' \<Rightarrow> picksFromPool ps s'))"

text \<open>
  The invariant of a draft in progress: twelve rosters, at most \<open>ROUNDS * NUM_TEAMS\<close>
  picks in the ledger, and the phase that goes with the length of the ledger.
\<close>

definition draftInProgress :: "DraftState \<Rightarrow> bool" where
  "draftInProgress s =
     (length (teamRosters s) = NUM_TEAMS
      \<and> length (draftPicks s) \<le> ROUNDS * NUM_TEAMS
      \<and> draftPhase s = (if length (draftPicks s) < ROUNDS * NUM_TEAMS then Drafting else Complete))"

text \<open>
  The bucket of the player's position holds fewer players than the maximum of the
  position; a pick for the team whose turn it is at such a position; a sequence of such
  picks.
\<close>

definition belowMax :: "TeamRoster \<Rightarrow> DraftPlayer \<Rightarrow> bool" where
  "belowMax roster p =
     (length (roster (position p)) < max_target (ROSTER_TARGETS (position p)))"

definition pickBelowMax :: "DraftPlayer \<Rightarrow> DraftState \<Rightarrow> bool" where
  "pickBelowMax p s =
     (case currentTeamIndex s of
        None \<Rightarrow> False
      | Some t \<Rightarrow> t < length (teamRosters s) \<and> belowMax (teamRosters s ! t) p)"

fun picksBelowMax :: "DraftPlayer list \<Rightarrow> DraftState \<Rightarrow> bool" where
  "picksBelowMax [] s = True"
| "picksBelowMax (p # ps) s =
     (pickBelowMax p s
      \<and> (case makePick p s of Inl e \<Rightarrow> False | Inr s' \<Rightarrow> picksBelowMax ps s'))"

section \<open>Example data\<close>

text \<open>A roster whose only players are running backs, with the given points in bucket order.\<close>

definition rbOnlyRoster :: "real list \<Rightarrow> TeamRoster" where
  "rbOnlyRoster pts = createEmptyRoster(RB := map (\<lambda>x. newPlayer RB ''rb'' x Map.empty) pts)"

text \<open>Twelve quarterbacks, listed with points 10, 20, ..., 120.\<close>

definition qbPool12 :: "DraftPlayer list" where
  "qbPool12 =
     map (\<lambda>n. newPlayer QB (replicate n (CHR ''x'')) (real (n + 1) * 10) Map.empty) [0..<12]"

text \<open>One quarterback of 10 points and one running back of 9 points.\<close>

definition qbRbPools :: "Position \<Rightarrow> DraftPlayer list" where
  "qbRbPools =
     (\<lambda>pos. [])(QB := [newPlayer QB ''a'' 10 Map.empty], RB := [newPlayer RB ''b'' 9 Map.empty])"

text \<open>
  A quarterback's row: 300 passing yards, 2 passing touchdowns, 1 interception and
  10 rushing yards; and the same row with a thousands separator in the passing yards and
  a text in the receiving yards.
\<close>

definition qbStatRow :: CSVRow where
  "qbStatRow = map_of [(''PassingYDS_pred'', ''300''), (''PassingTD_pred'', ''2''),
                       (''PassingInt_pred'', ''1''), (''RushingYDS_pred'', ''10'')]"

definition noisyStatRow :: CSVRow where
  "noisyStatRow = qbStatRow(''PassingYDS_pred'' \<mapsto> ''1,300'', ''ReceivingYDS_pred'' \<mapsto> ''n/a'')"

text \<open>A quarterback with no projected points, and the state of a hook with no players loaded.\<close>

definition benchQB :: DraftPlayer where
  "benchQB = newPlayer QB ''bench'' 0 Map.empty"

definition emptyLoaded :: DraftState where
  "emptyLoaded = loadedState [] 1 False"

text \<open>The random source that always draws 0.\<close>

definition noRandom :: "nat \<Rightarrow> real" where
  "noRandom i = 0"

text \<open>
  A draft of two running backs where the user drafts first, and a wide receiver who is
  not in the pool.
\<close>

definition rbA :: DraftPlayer where
  "rbA = newPlayer RB ''a'' 20 Map.empty"

definition rbB :: DraftPlayer where
  "rbB = newPlayer RB ''b'' 15 Map.empty"

definition wrStranger :: DraftPlayer where
  "wrStranger = newPlayer WR ''z'' 30 Map.empty"

definition smallDraft :: DraftState where
  "smallDraft = startDraft (loadedState [rbA, rbB] 1 False)"

text \<open>
  A pool of quarterbacks without projected points, and a draft over 26 of them in which
  the user drafts first and picks by hand: the user clicks a quarterback, the timer
  fires for the 22 picks of the other teams until the user is on the clock again, the
  user clicks two more quarterbacks, and the timer fires for the second team.
\<close>

definition qbNumber :: "nat \<Rightarrow> DraftPlayer" where
  "qbNumber i = newPlayer QB (replicate i (CHR ''x'')) 0 Map.empty"

definition qbDraft :: DraftState where
  "qbDraft = startDraft (loadedState (map qbNumber [0..<26]) 1 False)"

definition qbDraftEvents :: "DraftEvent list" where
  "qbDraftEvents =
     UserClick (qbNumber 0) # replicate 22 (TimerFires noRandom)
     @ [UserClick (qbNumber 23), UserClick (qbNumber 24), TimerFires noRandom]"

definition twoQBs :: TeamRoster where
  "twoQBs = createEmptyRoster(QB := [qbNumber 0, qbNumber 1])"

section \<open>Properties of the turn scheduler\<close>

lemma floor_quotient_div: "nat \<lfloor>real a / real b\<rfloor> = a div b"
proof -
  have "\<lfloor>real a / real b\<rfloor> = int (a div b)"
    by (rule floor_divide_of_nat_eq)
  then show ?thesis by simp
qed

lemma snake_index_div_mod:
  assumes "0 < N"
  shows "getSnakeDraftTeamIndex p N =
           Some (if even (p div N) then p mod N else N - 1 - p mod N)"
  using assms
  by (simp add: getSnakeDraftTeamIndex_def Let_def floor_quotient_div even_iff_mod_2_eq_zero)

lemma round_offset_div_mod:
  "k < N \<Longrightarrow> (r * N + k) div N = r \<and> (r * N + k) mod N = (k::nat)"
  by simp

text \<open>
  Claim C9. The turn scheduler depends on the 0-based pick index and the team count
  \<open>N\<close> only: for \<open>N > 0\<close> it returns \<open>pick mod N\<close> when \<open>pick div N\<close> is even and
  \<open>N - 1 - pick mod N\<close> when it is odd, which is the function the specification
  describes; the result is a valid team index.
\<close>

theorem turn_scheduler_refines_spec:
  assumes "0 < N"
  shows "getSnakeDraftTeamIndex pick_no N = Some (turnScheduler_spec pick_no N)
         \<and> turnScheduler_spec pick_no N < N"
proof -
  have "pick_no mod N < N" using assms by simp
  then have "turnScheduler_spec pick_no N < N"
    unfolding turnScheduler_spec_def Let_def by (simp split: if_splits)
  moreover have "getSnakeDraftTeamIndex pick_no N = Some (turnScheduler_spec pick_no N)"
    using snake_index_div_mod [OF assms, of pick_no]
    by (simp add: turnScheduler_spec_def Let_def)
  ultimately show ?thesis by simp
qed

theorem turn_scheduler_refines_spec_witness:
  "(0::nat) < 12 \<and> getSnakeDraftTeamIndex 14 12 = Some (turnScheduler_spec 14 12)
   \<and> turnScheduler_spec 14 12 = 9"
proof -
  have h: "(0::nat) < 12" by simp
  have "turnScheduler_spec 14 12 = 9"
    by (simp add: turnScheduler_spec_def Let_def)
  then show ?thesis using turn_scheduler_refines_spec [OF h, of 14] by simp
qed

text \<open>
  Claim C4, as stated, asks for team 0 at pick index \<open>r * N\<close> in every round. The
  second round of a twelve-team draft starts at pick index 12, and the scheduler hands
  it to team 11.
\<close>

theorem snake_round_start_counterexample:
  "getSnakeDraftTeamIndex (1 * 12) 12 = Some 11 \<and> getSnakeDraftTeamIndex (1 * 12) 12 \<noteq> Some 0"
  by (simp add: getSnakeDraftTeamIndex_def Let_def)

text \<open>
  Claim C4, amended. For every round \<open>r\<close> and team count \<open>N > 0\<close>, the first pick of
  the round (index \<open>r * N\<close>) belongs to team 0 when \<open>r\<close> is even and to team \<open>N - 1\<close>
  when \<open>r\<close> is odd, and the last pick of the round (index \<open>r * N + N - 1\<close>) belongs
  to team \<open>N - 1\<close> when \<open>r\<close> is even and to team 0 when \<open>r\<close> is odd.
\<close>

theorem snake_round_ends:
  assumes "0 < N"
  shows "getSnakeDraftTeamIndex (r * N) N = Some (if even r then 0 else N - 1)
         \<and> getSnakeDraftTeamIndex (r * N + N - 1) N = Some (if even r then N - 1 else 0)"
proof -
  have first: "(r * N) div N = r" "(r * N) mod N = 0"
    using assms by simp_all
  have eq: "r * N + N - 1 = r * N + (N - 1)"
    using assms by simp
  have lt: "N - 1 < N"
    using assms by simp
  have last: "(r * N + N - 1) div N = r" "(r * N + N - 1) mod N = N - 1"
    unfolding eq using round_offset_div_mod [OF lt, of r] by blast+
  show ?thesis
    using snake_index_div_mod [OF assms, of "r * N"]
          snake_index_div_mod [OF assms, of "r * N + N - 1"]
    unfolding first last by simp
qed

theorem snake_round_ends_witness:
  "(0::nat) < 12
   \<and> getSnakeDraftTeamIndex (3 * 12) 12 = Some 11
   \<and> getSnakeDraftTeamIndex (3 * 12 + 12 - 1) 12 = Some 0"
proof -
  have h: "(0::nat) < 12" by simp
  show ?thesis using snake_round_ends [OF h, of 3] by simp
qed

section \<open>Properties of the roster utilities\<close>

lemma sumPoints_from: "foldl (\<lambda>acc p. acc + points p) a ps = a + sum_list (map points ps)"
  by (induction ps arbitrary: a) simp_all

lemma sumPoints_sum_list: "sumPoints ps = sum_list (map points ps)"
  by (simp add: sumPoints_def sumPoints_from)

lemma sortDesc_sorted: "sorted_wrt (\<lambda>a b. f b \<le> f a) (sortDesc f xs)"
proof -
  have "sorted (map (\<lambda>x. - f x) (sort_key (\<lambda>x. - f x) xs))"
    by (rule sorted_sort_key)
  then show ?thesis
    by (simp add: sortDesc_def sorted_map)
qed

lemma sortDesc_id: "sorted_wrt (\<lambda>a b. f b \<le> f a) xs \<Longrightarrow> sortDesc f xs = xs"
proof -
  assume "sorted_wrt (\<lambda>a b. f b \<le> f a) xs"
  then have "sorted (map (\<lambda>x. - f x) xs)"
    by (simp add: sorted_map)
  then show ?thesis
    unfolding sortDesc_def by (rule sort_key_id_if_sorted)
qed

lemma set_sortDesc: "set (sortDesc f xs) = set xs"
  by (simp add: sortDesc_def)

lemma length_sortDesc: "length (sortDesc f xs) = length xs"
  by (simp add: sortDesc_def)

lemma sortDesc_Nil_iff: "sortDesc f xs = [] \<longleftrightarrow> xs = []"
  using length_sortDesc [of f xs] by auto

lemma head_of_sortDesc_is_Max:
  assumes "xs \<noteq> []"
  shows "sum_list (map f (take 1 (sortDesc f xs))) = Max (f ` set xs)"
proof -
  obtain y ys where ys: "sortDesc f xs = y # ys"
    using assms sortDesc_Nil_iff [of f xs] by (cases "sortDesc f xs") auto
  have srt: "sorted_wrt (\<lambda>a b. f b \<le> f a) (y # ys)"
    using sortDesc_sorted [of f xs] ys by simp
  have mem: "set xs = insert y (set ys)"
    using set_sortDesc [of f xs] ys by simp
  have "Max (f ` set xs) = f y"
  proof (rule Max_eqI)
    show "finite (f ` set xs)" by simp
    show "f y \<in> f ` set xs" using mem by simp
    fix v assume "v \<in> f ` set xs"
    then show "v \<le> f y" using srt mem by auto
  qed
  then show ?thesis using ys by simp
qed

lemma getStarterPoints_sums:
  "getStarterPoints roster =
     sum_list (map points (take 1 (roster QB)))
     + sum_list (map points (take 2 (roster RB)))
     + sum_list (map points (take 2 (roster WR)))
     + sum_list (map points (take 1 (roster TE)))
     + sum_list (map points (take 1
         (sortDesc points (drop 2 (roster RB) @ drop 2 (roster WR) @ drop 1 (roster TE)))))"
  by (simp add: getStarterPoints_def Let_def sumPoints_sum_list)

text \<open>
  Claim C2, amended. For every roster, \<open>getStarterPoints\<close> returns the sum of the
  points of the first QB, the first 2 RB, the first 2 WR and the first TE of the buckets, in
  bucket order, plus the highest points among the remaining RB (beyond the first 2), WR
  (beyond the first 2) and TE (beyond the first), or 0 when none remains. When every
  bucket is sorted descending by points, this is the sum over the best 1 QB, 2 RB, 2 WR,
  1 TE and the best remaining player. A roster with only RB points 20, 15, 10, 5 yields 45.
\<close>

theorem starter_points_first_slots:
  "getStarterPoints roster =
     sum_list (map points (take 1 (roster QB)))
     + sum_list (map points (take 2 (roster RB)))
     + sum_list (map points (take 2 (roster WR)))
     + sum_list (map points (take 1 (roster TE)))
     + (if drop 2 (roster RB) @ drop 2 (roster WR) @ drop 1 (roster TE) = [] then 0
        else Max (points ` set (drop 2 (roster RB) @ drop 2 (roster WR) @ drop 1 (roster TE))))
   \<and> ((\<forall>pos. sortedByPointsDesc (roster pos))
        \<longrightarrow> getStarterPoints roster = starterPoints_spec roster)
   \<and> getStarterPoints (rbOnlyRoster [20, 15, 10, 5]) = 45"
proof (intro conjI impI)
  let ?rest = "drop 2 (roster RB) @ drop 2 (roster WR) @ drop 1 (roster TE)"
  have flex: "sum_list (map points (take 1 (sortDesc points ?rest))) =
                (if ?rest = [] then 0 else Max (points ` set ?rest))"
  proof (cases "?rest = []")
    case True
    then have "sortDesc points ?rest = []" by (simp add: sortDesc_def)
    then show ?thesis using True by simp
  next
    case False
    have "sum_list (map points (take 1 (sortDesc points ?rest))) = Max (points ` set ?rest)"
      by (rule head_of_sortDesc_is_Max [OF False])
    with False show ?thesis by (simp only: if_False)
  qed
  show "getStarterPoints roster =
     sum_list (map points (take 1 (roster QB)))
     + sum_list (map points (take 2 (roster RB)))
     + sum_list (map points (take 2 (roster WR)))
     + sum_list (map points (take 1 (roster TE)))
     + (if ?rest = [] then 0 else Max (points ` set ?rest))"
    unfolding getStarterPoints_sums flex ..
next
  assume srt: "\<forall>pos. sortedByPointsDesc (roster pos)"
  have same: "sortDesc points (roster pos) = roster pos" for pos
    using srt by (simp add: sortedByPointsDesc_def sortDesc_id)
  show "getStarterPoints roster = starterPoints_spec roster"
    unfolding getStarterPoints_sums starterPoints_spec_def bestN_def beyondBestN_def same ..
next
  show "getStarterPoints (rbOnlyRoster [20, 15, 10, 5]) = 45"
    by (simp add: getStarterPoints_def rbOnlyRoster_def createEmptyRoster_def newPlayer_def
        sortDesc_def sumPoints_def)
qed

theorem starter_points_first_slots_witness:
  "(\<forall>pos. sortedByPointsDesc (rbOnlyRoster [20, 15, 10, 5] pos))
   \<and> getStarterPoints (rbOnlyRoster [20, 15, 10, 5]) = starterPoints_spec (rbOnlyRoster [20, 15, 10, 5])
   \<and> starterPoints_spec (rbOnlyRoster [20, 15, 10, 5]) = 45"
proof -
  have h: "\<forall>pos. sortedByPointsDesc (rbOnlyRoster [20, 15, 10, 5] pos)"
    by (simp add: sortedByPointsDesc_def rbOnlyRoster_def createEmptyRoster_def newPlayer_def)
  show ?thesis
    using h starter_points_first_slots [of "rbOnlyRoster [20, 15, 10, 5]"] by simp
qed

text \<open>
  Claim C2, as stated, takes the first N of a bucket for its best N. The buckets are in
  pick order (the roster update of \<open>makePick\<close> appends: a running back of 20 points
  picked after one of 5 points comes second), and a roster whose running backs were
  picked with points 5, 20, 15, 10 scores 5 + 20 + 15 = 40, while its best two running
  backs and the best remaining one score 45.
\<close>

theorem starter_points_not_best_counterexample:
  "getStarterPoints (rbOnlyRoster [5, 20, 15, 10]) = 40
   \<and> starterPoints_spec (rbOnlyRoster [5, 20, 15, 10]) = 45
   \<and> map points (addToRoster (rbOnlyRoster [5]) (newPlayer RB ''rb'' 20 Map.empty) RB) = [5, 20]"
  by (simp add: getStarterPoints_def starterPoints_spec_def bestN_def beyondBestN_def
      rbOnlyRoster_def createEmptyRoster_def newPlayer_def sortDesc_def sumPoints_def
      addToRoster_def)

section \<open>Properties of the valuation\<close>

lemma length_calcVOR: "length (calcVOR pos players) = length players"
  by (simp add: calcVOR_def Let_def)

lemma nth_calcVOR:
  assumes "i < length players"
  shows "calcVOR pos players ! i =
           (players ! i)\<lparr>vor := points (players ! i) - replacementValue (REPLACEMENT_RANK pos) players,
                          tier := nat \<lfloor>real i / 4\<rfloor> + 1\<rparr>"
  using assms by (simp add: calcVOR_def Let_def)

lemma points_calcVOR: "map points (calcVOR pos players) = map points players"
  by (rule nth_equalityI) (simp_all add: length_calcVOR nth_calcVOR)

lemma sortedByPointsDesc_map:
  "sortedByPointsDesc ps \<longleftrightarrow> sorted_wrt (\<lambda>x y. y \<le> x) (map points ps)"
  by (simp add: sortedByPointsDesc_def sorted_wrt_map)

lemma sortedByPointsDesc_valuate:
  "sortedByPointsDesc (calcVOR pos (sortByPoints players))"
proof -
  have "sortedByPointsDesc (sortByPoints players)"
    unfolding sortedByPointsDesc_def sortByPoints_def by (rule sortDesc_sorted)
  then show ?thesis
    by (simp add: sortedByPointsDesc_map points_calcVOR)
qed

lemma replacementValue_calcVOR:
  "replacementValue k (calcVOR pos players) = replacementValue k players"
  by (simp add: replacementValue_def length_calcVOR nth_calcVOR)

lemma count_list_insort_key:
  "count_list (insort_key f x xs) y = count_list (x # xs) y"
  by (induction xs) auto

lemma count_list_sort_key: "count_list (sort_key f xs) y = count_list xs y"
  by (induction xs) (simp_all add: count_list_insort_key)

lemma count_list_sortByPoints: "count_list (sortByPoints ps) p = count_list ps p"
  by (simp add: sortByPoints_def sortDesc_def count_list_sort_key)

lemma tier_floor: "nat \<lfloor>real i / 4\<rfloor> = i div 4"
  using floor_quotient_div [of i 4] by simp

text \<open>
  Claim C7. The loader sorts the pool of a position descending by points (the sorted
  list is a rearrangement of the pool) and gives each player, in place, its VOR and tier:
  with \<open>k\<close> the replacement rank of the position, the player at index \<open>i\<close> of
  the valuated pool is the player at index \<open>i\<close> of the sorted pool with VOR its points
  minus the points of the sorted pool's player at index \<open>k - 1\<close>, or minus 0 when the
  pool has fewer than \<open>k\<close> players, and tier \<open>i div 4 + 1\<close>. So the valuated pool is
  sorted descending by points, each player's VOR is its points minus those of the player
  at index \<open>k - 1\<close> (or minus 0), and with at least \<open>k\<close> players the player at
  index \<open>k - 1\<close> has VOR 0.
\<close>

theorem vor_relative_to_replacement:
  "length (valuatePositions pbp pos) = length (pbp pos)
   \<and> (\<forall>p. count_list (sortByPoints (pbp pos)) p = count_list (pbp pos) p)
   \<and> sortedByPointsDesc (sortByPoints (pbp pos))
   \<and> (\<forall>i < length (pbp pos).
         valuatePositions pbp pos ! i =
           (sortByPoints (pbp pos) ! i)
             \<lparr>vor := points (sortByPoints (pbp pos) ! i)
                     - (if REPLACEMENT_RANK pos \<le> length (pbp pos)
                        then points (sortByPoints (pbp pos) ! (REPLACEMENT_RANK pos - 1))
                        else 0),
              tier := i div 4 + 1\<rparr>)
   \<and> sortedByPointsDesc (valuatePositions pbp pos)
   \<and> (\<forall>i < length (valuatePositions pbp pos).
         vor (valuatePositions pbp pos ! i) =
           points (valuatePositions pbp pos ! i)
           - (if REPLACEMENT_RANK pos \<le> length (valuatePositions pbp pos)
              then points (valuatePositions pbp pos ! (REPLACEMENT_RANK pos - 1)) else 0))
   \<and> (REPLACEMENT_RANK pos \<le> length (valuatePositions pbp pos)
        \<longrightarrow> vor (valuatePositions pbp pos ! (REPLACEMENT_RANK pos - 1)) = 0)"
proof -
  define k where "k = REPLACEMENT_RANK pos"
  define sorted_ps where "sorted_ps = sortByPoints (pbp pos)"
  define ranked where "ranked = calcVOR pos sorted_ps"
  have ranked: "valuatePositions pbp pos = ranked"
    by (simp add: valuatePositions_def ranked_def sorted_ps_def)
  have k1: "1 \<le> k"
    unfolding k_def by (cases pos) simp_all
  have len_s: "length sorted_ps = length (pbp pos)"
    by (simp add: sorted_ps_def sortByPoints_def length_sortDesc)
  have len': "length ranked = length sorted_ps"
    by (simp add: ranked_def length_calcVOR)
  have len: "length ranked = length (pbp pos)"
    using len' len_s by simp
  have perm: "\<forall>p. count_list sorted_ps p = count_list (pbp pos) p"
    by (simp add: sorted_ps_def count_list_sortByPoints)
  have srt_s: "sortedByPointsDesc sorted_ps"
    unfolding sortedByPointsDesc_def sorted_ps_def sortByPoints_def by (rule sortDesc_sorted)
  have srt: "sortedByPointsDesc ranked"
    unfolding ranked_def sorted_ps_def by (rule sortedByPointsDesc_valuate)
  have rv_s: "replacementValue k sorted_ps =
                (if k \<le> length (pbp pos) then points (sorted_ps ! (k - 1)) else 0)"
    using k1 len_s by (auto simp: replacementValue_def)
  have nth: "ranked ! i =
               (sorted_ps ! i)
                 \<lparr>vor := points (sorted_ps ! i)
                         - (if k \<le> length (pbp pos) then points (sorted_ps ! (k - 1)) else 0),
                  tier := i div 4 + 1\<rparr>"
    if "i < length (pbp pos)" for i
  proof -
    have i: "i < length sorted_ps" using that len_s by simp
    have "ranked ! i = (sorted_ps ! i)\<lparr>vor := points (sorted_ps ! i) - replacementValue k sorted_ps,
                                       tier := nat \<lfloor>real i / 4\<rfloor> + 1\<rparr>"
      unfolding ranked_def k_def by (rule nth_calcVOR [OF i])
    then show ?thesis by (simp only: rv_s tier_floor)
  qed
  have pts: "points (ranked ! i) = points (sorted_ps ! i)" if "i < length (pbp pos)" for i
    using nth [OF that] by simp
  have vor_i: "vor (ranked ! i) = points (ranked ! i)
                 - (if k \<le> length ranked then points (ranked ! (k - 1)) else 0)"
    if "i < length ranked" for i
  proof -
    have i: "i < length (pbp pos)" using that len by simp
    have "vor (ranked ! i) = points (sorted_ps ! i)
            - (if k \<le> length (pbp pos) then points (sorted_ps ! (k - 1)) else 0)"
      using nth [OF i] by simp
    moreover have "points (ranked ! (k - 1)) = points (sorted_ps ! (k - 1))"
      if "k \<le> length (pbp pos)"
      using pts [of "k - 1"] that k1 by simp
    ultimately show ?thesis
      using pts [OF i] len by simp
  qed
  have at_k: "vor (ranked ! (k - 1)) = 0" if "k \<le> length ranked"
  proof -
    have "k - 1 < length ranked" using that k1 by simp
    from vor_i [OF this] that show ?thesis by simp
  qed
  show ?thesis
    unfolding ranked k_def [symmetric] sorted_ps_def [symmetric]
    using len perm srt_s nth srt vor_i at_k by (intro conjI allI impI) simp_all
qed

theorem vor_relative_to_replacement_witness:
  "REPLACEMENT_RANK QB \<le> length (valuatePositions (\<lambda>pos. qbPool12) QB)
   \<and> 0 < length qbPool12 \<and> 11 < length qbPool12
   \<and> map points qbPool12 = [10, 20, 30, 40, 50, 60, 70, 80, 90, 100, 110, 120]
   \<and> points (valuatePositions (\<lambda>pos. qbPool12) QB ! 0) = 120
   \<and> vor (valuatePositions (\<lambda>pos. qbPool12) QB ! 0) = 110
   \<and> points (valuatePositions (\<lambda>pos. qbPool12) QB ! 11) = 10
   \<and> vor (valuatePositions (\<lambda>pos. qbPool12) QB ! 11) = 0
   \<and> tier (valuatePositions (\<lambda>pos. qbPool12) QB ! 11) = 3"
proof -
  have len: "length qbPool12 = 12"
    by (simp add: qbPool12_def)
  have pool: "map points qbPool12 = [10, 20, 30, 40, 50, 60, 70, 80, 90, 100, 110, 120]"
    by code_simp
  have sorted: "map points (sortByPoints qbPool12)
                  = [120, 110, 100, 90, 80, 70, 60, 50, 40, 30, 20, 10]"
    by code_simp
  have len_s: "length (sortByPoints qbPool12) = 12"
    using sorted by (auto dest: arg_cong [where f = length])
  have p0: "points (sortByPoints qbPool12 ! 0) = 120"
    using nth_map [of 0 "sortByPoints qbPool12" points] len_s by (simp add: sorted)
  have p11: "points (sortByPoints qbPool12 ! 11) = 10"
    using nth_map [of 11 "sortByPoints qbPool12" points] len_s by (simp add: sorted)
  note main = vor_relative_to_replacement [of "\<lambda>pos. qbPool12" QB]
  have n0: "valuatePositions (\<lambda>pos. qbPool12) QB ! 0 =
              (sortByPoints qbPool12 ! 0)\<lparr>vor := 110, tier := 1\<rparr>"
    using main [THEN conjunct2, THEN conjunct2, THEN conjunct2, THEN conjunct1, rule_format, of 0]
    by (simp add: len p0 p11)
  have n11: "valuatePositions (\<lambda>pos. qbPool12) QB ! 11 =
              (sortByPoints qbPool12 ! 11)\<lparr>vor := 0, tier := 3\<rparr>"
    using main [THEN conjunct2, THEN conjunct2, THEN conjunct2, THEN conjunct1, rule_format, of 11]
    by (simp add: len p0 p11)
  have l: "length (valuatePositions (\<lambda>pos. qbPool12) QB) = 12"
    using main [THEN conjunct1] len by simp
  show ?thesis
    by (simp add: l len pool n0 n11 p0 p11)
qed

lemma loadAll_all_sorted: "sortedByWeightedVor (loadAll_all pbp)"
  unfolding sortedByWeightedVor_def loadAll_all_def by (rule sortDesc_sorted)

text \<open>
  Claim C3 on the pool of the hook \<open>useDraft\<close>. With one quarterback of 10 points and
  one running back of 9 points (fewer players than the replacement ranks, so VOR equals
  points), the hook puts the quarterback first, although its weighted VOR 9.5 is below
  the running back's 10.35; the list is not sorted by weighted VOR. The page component's
  sort puts the running back first.
\<close>

theorem hook_pool_not_sorted_by_weighted_vor:
  "map name (loadPlayers_all qbRbPools) = [''a'', ''b'']
   \<and> map weightedVor (loadPlayers_all qbRbPools) = [95 / 10, 1035 / 100]
   \<and> \<not> sortedByWeightedVor (loadPlayers_all qbRbPools)
   \<and> map name (loadAll_all qbRbPools) = [''b'', ''a'']"
  by (simp add: loadPlayers_all_def loadAll_all_def qbRbPools_def flatPositions_def
      valuatePositions_def calcVOR_def replacementValue_def sortByPoints_def sortDesc_def
      newPlayer_def weightedVor_def sortedByWeightedVor_def Let_def)

section \<open>Properties of the scoring function\<close>

lemmas parseFloat_eval =
  parseFloat_def splitSign_def exponentPart_def pow10_def decimalValue_def digitValue_def
  isDigit_def isWhiteSpace_def Let_def

lemma parseFloat_examples:
  "parseFloat ''300'' = Some 300"
  "parseFloat ''  -12.50e-1xyz'' = Some (- 125 / 100)"
  "parseFloat ''.5'' = Some (1 / 2)"
  "parseFloat ''1e'' = Some 1"
  "parseFloat ''n/a'' = None"
  "parseFloat ''Infinity'' = None"
  "parseFloat [] = None"
  by (simp_all add: parseFloat_eval)

lemma toNumber_examples:
  "toNumber (VString ''1,234.5'') 0 = 12345 / 10"
  "toNumber (VString ''12abc'') 0 = 12"
  "toNumber (VString ''abc'') 0 = 0"
  "toNumber VUndefined 0 = 0"
  "toNumber (VNumber 7) 0 = 7"
  by (simp_all add: toNumber_def parseFloat_eval)


lemma computeFantasyPoints_spec:
  "computeFantasyPoints row pos scoring = roundTo2_spec (rawScore_spec (statOf row) scoring)"
  by (cases scoring)
     (simp_all add: computeFantasyPoints_def Let_def Math_round_def round_def roundTo2_spec_def
       rawScore_spec_def pprWeight_spec_def statOf_def algebra_simps)




lemma noisyStatRow_points: "computeFantasyPoints noisyStatRow QB PPR = 59"
proof -
  have stats:
    "statOf noisyStatRow ''PassingYDS_pred'' = 1300" "statOf noisyStatRow ''PassingTD_pred'' = 2"
    "statOf noisyStatRow ''PassingInt_pred'' = 1" "statOf noisyStatRow ''RushingYDS_pred'' = 10"
    "statOf noisyStatRow ''RushingTD_pred'' = 0" "statOf noisyStatRow ''ReceivingRec_pred'' = 0"
    "statOf noisyStatRow ''ReceivingYDS_pred'' = 0" "statOf noisyStatRow ''ReceivingTD_pred'' = 0"
    by (simp_all add: statOf_def rowGet_def toNumber_def noisyStatRow_def qbStatRow_def
        parseFloat_eval)
  show ?thesis
    unfolding computeFantasyPoints_spec
    by (simp add: rawScore_spec_def pprWeight_spec_def roundTo2_spec_def stats)
qed



section \<open>Properties of the draft state machine\<close>

lemma acting_team:
  obtains t where "getSnakeDraftTeamIndex n NUM_TEAMS = Some t" "t < NUM_TEAMS"
proof -
  have pos: "0 < NUM_TEAMS" by (simp add: NUM_TEAMS_def)
  let ?t = "if even (n div NUM_TEAMS) then n mod NUM_TEAMS else NUM_TEAMS - 1 - n mod NUM_TEAMS"
  have "getSnakeDraftTeamIndex n NUM_TEAMS = Some ?t"
    by (rule snake_index_div_mod [OF pos])
  moreover have "?t < NUM_TEAMS"
  proof -
    have "n mod NUM_TEAMS < NUM_TEAMS" using pos by simp
    moreover have "NUM_TEAMS - 1 - n mod NUM_TEAMS < NUM_TEAMS" using pos by arith
    ultimately show ?thesis by presburger
  qed
  ultimately show ?thesis using that by blast
qed

lemma makePick_fields:
  assumes "makePick p s = Inr s'"
  obtains t where
    "currentTeamIndex s = Some t" "t < length (teamRosters s)"
    "draftPicks s' = draftPicks s @
       [\<lparr>pk_round = nat \<lfloor>real (length (draftPicks s)) / real NUM_TEAMS\<rfloor> + 1,
         pk_pick = length (draftPicks s) mod NUM_TEAMS + 1,
         pk_overall = length (draftPicks s) + 1, pk_teamIndex = t, pk_player = p\<rparr>]"
    "availablePlayers s' = filter (\<lambda>q. id_p q \<noteq> id_p p) (availablePlayers s)"
    "teamRosters s' = (teamRosters s)[t := addToRoster (teamRosters s ! t) p]"
    "draftPhase s' =
       (if ROUNDS * NUM_TEAMS \<le> length (draftPicks s) + 1 then Complete else draftPhase s)"
    "allPlayers s' = allPlayers s" "userPickPosition s' = userPickPosition s"
    "autopick s' = autopick s"
proof -
  obtain t where t: "getSnakeDraftTeamIndex (length (draftPicks s)) NUM_TEAMS = Some t"
    by (rule acting_team)
  have lt: "t < length (teamRosters s)"
    using assms t by (simp add: makePick_def Let_def split: if_splits)
  have s': "s' = s\<lparr>draftPicks := draftPicks s @
                 [\<lparr>pk_round = nat \<lfloor>real (length (draftPicks s)) / real NUM_TEAMS\<rfloor> + 1,
                   pk_pick = length (draftPicks s) mod NUM_TEAMS + 1,
                   pk_overall = length (draftPicks s) + 1, pk_teamIndex = t, pk_player = p\<rparr>],
               availablePlayers := filter (\<lambda>q. id_p q \<noteq> id_p p) (availablePlayers s),
               teamRosters := (teamRosters s)[t := addToRoster (teamRosters s ! t) p],
               draftPhase := (if length (draftPicks s) + 1 \<ge> ROUNDS * NUM_TEAMS then Complete
                              else draftPhase s)\<rparr>"
    using assms t lt by (simp add: makePick_def Let_def)
  show ?thesis
    by (rule that [of t]) (simp_all add: currentTeamIndex_def currentPick_def t lt s')
qed

lemma makePick_total:
  assumes "length (teamRosters s) = NUM_TEAMS"
  shows "\<exists>s'. makePick p s = Inr s'"
proof -
  obtain t where t: "getSnakeDraftTeamIndex (length (draftPicks s)) NUM_TEAMS = Some t"
    and lt: "t < NUM_TEAMS"
    by (rule acting_team)
  show ?thesis
    using assms t lt by (simp add: makePick_def Let_def)
qed

lemma makePick_ledger_length:
  assumes "makePick p s = Inr s'"
  shows "length (draftPicks s') = length (draftPicks s) + 1"
    and "length (teamRosters s') = length (teamRosters s)"
  using assms by (auto elim!: makePick_fields)

lemma makePick_keeps_complete:
  assumes "makePick p s = Inr s'" "draftPhase s = Complete"
  shows "draftPhase s' = Complete"
  using assms by (auto elim!: makePick_fields)

lemma makePick_in_progress:
  assumes "draftInProgress s" "draftPhase s = Drafting" "makePick p s = Inr s'"
  shows "draftInProgress s'"
proof -
  have lt: "length (draftPicks s) < ROUNDS * NUM_TEAMS"
    using assms(1,2) by (auto simp: draftInProgress_def split: if_splits)
  from assms(3) show ?thesis
    using assms(1,2) lt
    by (elim makePick_fields) (auto simp: draftInProgress_def)
qed

lemma handleUserPick_in_progress:
  assumes "draftInProgress s"
  shows "\<exists>s'. handleUserPick p s = Inr s' \<and> draftInProgress s'"
proof (cases "\<not> isUserTurn s \<or> draftPhase s \<noteq> Drafting")
  case True
  then show ?thesis using assms by (auto simp: handleUserPick_def)
next
  case False
  then have dr: "draftPhase s = Drafting" by simp
  obtain s' where s': "makePick p s = Inr s'"
    using makePick_total [of s p] assms by (auto simp: draftInProgress_def)
  have "draftInProgress s'"
    by (rule makePick_in_progress [OF assms dr s'])
  then show ?thesis using False s' by (auto simp: handleUserPick_def)
qed

lemma autoDraft_in_progress:
  assumes "draftInProgress s"
  shows "\<exists>s'. autoDraft rnd s = Inr s' \<and> draftInProgress s'"
proof (cases "draftPhase s \<noteq> Drafting \<or> (isUserTurn s \<and> \<not> autopick s) \<or> availablePlayers s = []")
  case True
  then show ?thesis using assms by (auto simp: autoDraft_def)
next
  case False
  then have dr: "draftPhase s = Drafting" by simp
  obtain t where t: "currentTeamIndex s = Some t" and lt: "t < NUM_TEAMS"
    unfolding currentTeamIndex_def by (rule acting_team)
  have len: "length (teamRosters s) = NUM_TEAMS"
    using assms by (simp add: draftInProgress_def)
  show ?thesis
  proof (cases "getCPUPick rnd (availablePlayers s) (teamRosters s ! t) (currentRound s)")
    case None
    then show ?thesis using False t lt len assms by (auto simp: autoDraft_def)
  next
    case (Some p)
    obtain s' where s': "makePick p s = Inr s'"
      using makePick_total [OF len] by blast
    have "draftInProgress s'"
      by (rule makePick_in_progress [OF assms dr s'])
    then show ?thesis using False t lt len Some s' by (auto simp: autoDraft_def)
  qed
qed

lemma applyEvent_in_progress:
  assumes "draftInProgress s"
  shows "\<exists>s'. applyEvent ev s = Inr s' \<and> draftInProgress s'"
  using assms handleUserPick_in_progress autoDraft_in_progress by (cases ev) auto

lemma runDraft_in_progress:
  assumes "draftInProgress s"
  shows "\<exists>s'. runDraft evs s = Inr s' \<and> draftInProgress s'"
  using assms
proof (induction evs arbitrary: s)
  case Nil
  then show ?case by simp
next
  case (Cons ev evs)
  obtain s1 where s1: "applyEvent ev s = Inr s1" "draftInProgress s1"
    using applyEvent_in_progress [OF Cons.prems] by blast
  from Cons.IH [OF s1(2)] s1(1) show ?case by simp
qed

lemma startDraft_in_progress: "draftInProgress (startDraft s)"
  by (simp add: draftInProgress_def startDraft_def NUM_TEAMS_def ROUNDS_def)

lemma applyEvent_complete:
  assumes "draftPhase s = Complete"
  shows "applyEvent ev s = Inr s"
  using assms by (cases ev) (simp_all add: handleUserPick_def autoDraft_def)

lemma applyPicks_phase:
  assumes "length (teamRosters s) = NUM_TEAMS"
    and "draftPhase s = (if length (draftPicks s) < ROUNDS * NUM_TEAMS then Drafting else Complete)"
  shows "\<exists>s'. applyPicks ps s = Inr s'
              \<and> length (draftPicks s') = length (draftPicks s) + length ps
              \<and> draftPhase s' =
                  (if length (draftPicks s') < ROUNDS * NUM_TEAMS then Drafting else Complete)"
  using assms
proof (induction ps arbitrary: s)
  case Nil
  then show ?case by simp
next
  case (Cons p ps)
  obtain s1 where s1: "makePick p s = Inr s1"
    using makePick_total [OF Cons.prems(1)] by blast
  have len1: "length (draftPicks s1) = length (draftPicks s) + 1"
    and rost1: "length (teamRosters s1) = NUM_TEAMS"
    using makePick_ledger_length [OF s1] Cons.prems(1) by simp_all
  have ph1: "draftPhase s1 =
               (if length (draftPicks s1) < ROUNDS * NUM_TEAMS then Drafting else Complete)"
    using s1 Cons.prems(2) len1 by (elim makePick_fields) (auto split: if_splits)
  from Cons.IH [OF rost1 ph1] s1 len1 show ?case by auto
qed

text \<open>
  Claim C6, as stated, lets only a reset leave the phase \<open>Complete\<close>. After the 180
  picks of a draft the phase is \<open>Complete\<close>; \<open>startDraft\<close>, which the hook
  exports and which checks no phase, takes that state to \<open>Drafting\<close>, where
  \<open>resetDraft\<close> takes it to \<open>Setup\<close>.
\<close>

theorem start_leaves_complete_counterexample:
  "\<not> isl (applyPicks (replicate 180 benchQB) (startDraft emptyLoaded))
   \<and> draftPhase (projr (applyPicks (replicate 180 benchQB) (startDraft emptyLoaded))) = Complete
   \<and> draftPhase (startDraft (projr (applyPicks (replicate 180 benchQB) (startDraft emptyLoaded))))
       = Drafting
   \<and> draftPhase (resetDraft (projr (applyPicks (replicate 180 benchQB) (startDraft emptyLoaded))))
       = Setup"
proof -
  have n: "ROUNDS * NUM_TEAMS = 180"
    by (simp add: ROUNDS_def NUM_TEAMS_def)
  have start: "length (teamRosters (startDraft emptyLoaded)) = NUM_TEAMS"
    "draftPhase (startDraft emptyLoaded) =
       (if length (draftPicks (startDraft emptyLoaded)) < ROUNDS * NUM_TEAMS then Drafting
        else Complete)"
    by (simp_all add: startDraft_def n)
  obtain sC where run: "applyPicks (replicate 180 benchQB) (startDraft emptyLoaded) = Inr sC"
    and len: "length (draftPicks sC) = length (draftPicks (startDraft emptyLoaded)) + 180"
    and ph: "draftPhase sC =
               (if length (draftPicks sC) < ROUNDS * NUM_TEAMS then Drafting else Complete)"
    using applyPicks_phase [OF start, of "replicate 180 benchQB"] by auto
  have "length (draftPicks sC) = 180"
    using len by (simp add: startDraft_def)
  then have c: "draftPhase sC = Complete"
    using ph by (simp add: n)
  have a: "\<not> isl (applyPicks (replicate 180 benchQB) (startDraft emptyLoaded))"
    by (simp only: run sum.disc simp_thms)
  have b: "draftPhase (projr (applyPicks (replicate 180 benchQB) (startDraft emptyLoaded)))
             = Complete"
    by (simp only: run sum.sel c)
  have d: "draftPhase (startDraft s) = Drafting" "draftPhase (resetDraft s) = Setup" for s
    by (simp_all add: startDraft_def resetDraft_def)
  show ?thesis
    using a b d by (intro conjI)
qed

text \<open>
  Claim C6, amended. A draft has \<open>ROUNDS * NUM_TEAMS = 180\<close> picks. From
  \<open>startDraft\<close>, any sequence of applied picks succeeds, the ledger holds one entry
  for each, and the phase is \<open>Drafting\<close> while fewer than 180 picks are applied and
  \<open>Complete\<close> from the 180th on. Driven through the user's clicks and the auto-draft
  timer, the ledger never grows beyond 180 picks and the phase is \<open>Complete\<close>
  exactly when it holds 180. No pick leaves the phase \<open>Complete\<close>: a click or a
  timer leaves the state as it is, and \<open>makePick\<close> leaves the phase
  \<open>Complete\<close>. Two operations leave it, both with an empty ledger:
  \<open>resetDraft\<close> returns to \<open>Setup\<close>, and \<open>startDraft\<close>, from any phase,
  starts a draft in phase \<open>Drafting\<close>.
\<close>

theorem complete_exactly_at_last_pick:
  "ROUNDS * NUM_TEAMS = 180
   \<and> (\<exists>s'. applyPicks ps (startDraft s) = Inr s'
            \<and> length (draftPicks s') = length ps
            \<and> draftPhase s' = (if length ps < 180 then Drafting else Complete))
   \<and> (\<exists>s'. runDraft evs (startDraft s) = Inr s'
            \<and> length (draftPicks s') \<le> 180
            \<and> draftPhase s' = (if length (draftPicks s') < 180 then Drafting else Complete))
   \<and> (draftPhase s = Complete \<longrightarrow>
         applyEvent ev s = Inr s
         \<and> (\<forall>s'. makePick p s = Inr s' \<longrightarrow> draftPhase s' = Complete))
   \<and> draftPhase (resetDraft s) = Setup \<and> draftPicks (resetDraft s) = []
   \<and> draftPhase (startDraft s) = Drafting \<and> draftPicks (startDraft s) = []"
proof -
  have n: "ROUNDS * NUM_TEAMS = 180"
    by (simp add: ROUNDS_def NUM_TEAMS_def)
  have start: "length (teamRosters (startDraft s)) = NUM_TEAMS"
    "draftPhase (startDraft s) =
       (if length (draftPicks (startDraft s)) < ROUNDS * NUM_TEAMS then Drafting else Complete)"
    by (simp_all add: startDraft_def n)
  have a: "\<exists>s'. applyPicks ps (startDraft s) = Inr s'
            \<and> length (draftPicks s') = length ps
            \<and> draftPhase s' = (if length ps < 180 then Drafting else Complete)"
    using applyPicks_phase [OF start, of ps] by (auto simp: n startDraft_def)
  have b: "\<exists>s'. runDraft evs (startDraft s) = Inr s'
            \<and> length (draftPicks s') \<le> 180
            \<and> draftPhase s' = (if length (draftPicks s') < 180 then Drafting else Complete)"
    using runDraft_in_progress [OF startDraft_in_progress, of evs s]
    by (auto simp: draftInProgress_def n)
  have c: "draftPhase s = Complete \<longrightarrow>
         applyEvent ev s = Inr s
         \<and> (\<forall>s'. makePick p s = Inr s' \<longrightarrow> draftPhase s' = Complete)"
    using applyEvent_complete makePick_keeps_complete by blast
  have d: "draftPhase (resetDraft s) = Setup \<and> draftPicks (resetDraft s) = []
           \<and> draftPhase (startDraft s) = Drafting \<and> draftPicks (startDraft s) = []"
    by (simp add: resetDraft_def startDraft_def)
  show ?thesis using n a b c d by blast
qed

lemma applyPicks_snoc:
  "applyPicks (ps @ [p]) s = (case applyPicks ps s of Inl e \<Rightarrow> Inl e | Inr s1 \<Rightarrow> makePick p s1)"
  by (induction ps arbitrary: s) (auto split: sum.splits)

theorem complete_exactly_at_last_pick_witness:
  "\<exists>sC s'. applyPicks (replicate 180 benchQB) (startDraft emptyLoaded) = Inr sC
      \<and> draftPhase sC = Complete
      \<and> applyEvent (UserClick benchQB) sC = Inr sC
      \<and> makePick benchQB sC = Inr s'
      \<and> draftPhase s' = Complete"
proof -
  obtain sC where sC: "applyPicks (replicate 180 benchQB) (startDraft emptyLoaded) = Inr sC"
    "draftPhase sC = Complete"
    using complete_exactly_at_last_pick
            [of "replicate 180 benchQB" emptyLoaded "[]" "UserClick benchQB" benchQB,
             THEN conjunct2, THEN conjunct1]
    by auto
  obtain s' where s': "applyPicks (replicate 181 benchQB) (startDraft emptyLoaded) = Inr s'"
    using complete_exactly_at_last_pick
            [of "replicate 181 benchQB" emptyLoaded "[]" "UserClick benchQB" benchQB,
             THEN conjunct2, THEN conjunct1]
    by auto
  have "(181::nat) = Suc 180"
    by simp
  then have "replicate 181 benchQB = benchQB # replicate 180 benchQB"
    by (simp only: replicate_Suc)
  then have "replicate 181 benchQB = replicate 180 benchQB @ [benchQB]"
    by (simp only: replicate_append_same)
  then have mk: "makePick benchQB sC = Inr s'"
    using s' sC(1) by (simp add: applyPicks_snoc)
  show ?thesis
    using sC mk
      complete_exactly_at_last_pick
        [of "[]" sC "[]" "UserClick benchQB" benchQB,
         THEN conjunct2, THEN conjunct2, THEN conjunct2, THEN conjunct1]
    by blast
qed

section \<open>Picks outside the drafting phase and picks outside the pool\<close>

lemma handleUserPick_noop:
  "\<not> isUserTurn s \<or> draftPhase s \<noteq> Drafting \<Longrightarrow> handleUserPick p s = Inr s"
  by (simp add: handleUserPick_def)

lemma autoDraft_noop: "draftPhase s \<noteq> Drafting \<Longrightarrow> autoDraft rnd s = Inr s"
  by (simp add: autoDraft_def)

lemma filter_absent_id:
  "id_p p \<notin> id_p ` set pool \<Longrightarrow> filter (\<lambda>q. id_p q \<noteq> id_p p) pool = pool"
  by (induction pool) auto

lemma smallDraft_facts:
  "draftPhase smallDraft = Drafting" "isUserTurn smallDraft"
  "availablePlayers smallDraft = [rbA, rbB]" "draftPicks smallDraft = []"
  "length (teamRosters smallDraft) = 12"
  by (simp_all add: smallDraft_def startDraft_def loadedState_def isUserTurn_def
      currentTeamIndex_def currentPick_def userTeamIndex_def getSnakeDraftTeamIndex_def
      NUM_TEAMS_def Let_def)

text \<open>
  Claim C5, as stated, makes a pick for a player outside the pool a no-op. In a draft
  whose pool holds two running backs, the user, first to pick, clicks a wide receiver
  that is not in the pool: the pick is recorded in the ledger and the player joins the
  user's roster.
\<close>

theorem pick_outside_pool_counterexample:
  "id_p wrStranger \<notin> id_p ` set (availablePlayers smallDraft)
   \<and> draftPhase smallDraft = Drafting
   \<and> handleUserPick wrStranger smallDraft \<noteq> Inr smallDraft
   \<and> map pk_player (draftPicks (projr (handleUserPick wrStranger smallDraft))) = [wrStranger]
   \<and> (teamRosters (projr (handleUserPick wrStranger smallDraft)) ! 0) WR = [wrStranger]
   \<and> draftPicks smallDraft = []
   \<and> (teamRosters smallDraft ! 0) WR = []"
proof -
  have a: "id_p wrStranger \<notin> id_p ` set (availablePlayers smallDraft)"
    by (simp add: smallDraft_facts rbA_def rbB_def wrStranger_def newPlayer_def positionName_def)
  have t0: "currentTeamIndex smallDraft = Some 0"
    by (simp add: currentTeamIndex_def currentPick_def smallDraft_facts
        getSnakeDraftTeamIndex_def NUM_TEAMS_def)
  have r: "teamRosters smallDraft ! 0 = createEmptyRoster"
    by (simp add: smallDraft_def startDraft_def NUM_TEAMS_def)
  have w: "position wrStranger = WR"
    by (simp add: wrStranger_def newPlayer_def)
  obtain s' where mk: "makePick wrStranger smallDraft = Inr s'"
    using makePick_total [of smallDraft wrStranger] by (auto simp: smallDraft_facts NUM_TEAMS_def)
  have h: "handleUserPick wrStranger smallDraft = Inr s'"
    by (simp add: handleUserPick_def smallDraft_facts mk)
  from mk have picks: "map pk_player (draftPicks s') = [wrStranger]"
    by (elim makePick_fields) (simp add: smallDraft_facts)
  from mk have roster: "(teamRosters s' ! 0) WR = [wrStranger]"
    by (elim makePick_fields)
       (simp add: t0 r w smallDraft_facts addToRoster_def createEmptyRoster_def)
  have ne: "s' \<noteq> smallDraft"
    using picks by (auto simp: smallDraft_facts)
  show ?thesis
    using a ne picks roster
    by (simp add: h smallDraft_facts r createEmptyRoster_def)
qed

text \<open>
  Claim C5, amended. A user pick outside the drafting phase, or when it is not the
  user's turn, and a firing of the auto-draft timer outside the drafting phase, are
  no-ops: the state (ledger, pool, rosters, phase) is unchanged. The engine does not
  check that the player is in the pool: a pick applied for a player whose id no player
  of the pool has leaves the pool unchanged, and is recorded in the ledger and added to
  the acting team's roster like any other.
\<close>

theorem pick_outside_drafting_is_noop:
  "(draftPhase s \<noteq> Drafting \<longrightarrow> handleUserPick p s = Inr s \<and> autoDraft rnd s = Inr s)
   \<and> (\<not> isUserTurn s \<longrightarrow> handleUserPick p s = Inr s)
   \<and> (id_p p \<notin> id_p ` set (availablePlayers s) \<and> makePick p s = Inr s' \<longrightarrow>
         availablePlayers s' = availablePlayers s
         \<and> map pk_player (draftPicks s') = map pk_player (draftPicks s) @ [p]
         \<and> (\<exists>t. currentTeamIndex s = Some t \<and> t < length (teamRosters s)
                \<and> teamRosters s' = (teamRosters s)[t := addToRoster (teamRosters s ! t) p]))"
proof (intro conjI impI)
  assume "draftPhase s \<noteq> Drafting"
  then show "handleUserPick p s = Inr s" "autoDraft rnd s = Inr s"
    by (simp_all add: handleUserPick_noop autoDraft_noop)
next
  assume "\<not> isUserTurn s"
  then show "handleUserPick p s = Inr s"
    by (simp add: handleUserPick_noop)
next
  assume h: "id_p p \<notin> id_p ` set (availablePlayers s) \<and> makePick p s = Inr s'"
  then have absent: "id_p p \<notin> id_p ` set (availablePlayers s)"
    and mk: "makePick p s = Inr s'" by simp_all
  from mk show "availablePlayers s' = availablePlayers s"
    using filter_absent_id [OF absent] by (elim makePick_fields) simp
  from mk show "map pk_player (draftPicks s') = map pk_player (draftPicks s) @ [p]"
    by (elim makePick_fields) simp
  from mk show "\<exists>t. currentTeamIndex s = Some t \<and> t < length (teamRosters s)
                \<and> teamRosters s' = (teamRosters s)[t := addToRoster (teamRosters s ! t) p]"
    by (elim makePick_fields) simp
qed

theorem pick_outside_drafting_is_noop_witness:
  "draftPhase (resetDraft smallDraft) \<noteq> Drafting
   \<and> handleUserPick rbA (resetDraft smallDraft) = Inr (resetDraft smallDraft)
   \<and> autoDraft noRandom (resetDraft smallDraft) = Inr (resetDraft smallDraft)
   \<and> \<not> isUserTurn (smallDraft\<lparr>userPickPosition := 5\<rparr>)
   \<and> handleUserPick rbA (smallDraft\<lparr>userPickPosition := 5\<rparr>) = Inr (smallDraft\<lparr>userPickPosition := 5\<rparr>)
   \<and> id_p wrStranger \<notin> id_p ` set (availablePlayers smallDraft)
   \<and> (\<exists>s'. makePick wrStranger smallDraft = Inr s'
          \<and> availablePlayers s' = availablePlayers smallDraft
          \<and> map pk_player (draftPicks s') = [wrStranger])"
proof -
  have h1: "draftPhase (resetDraft smallDraft) \<noteq> Drafting"
    by (simp add: resetDraft_def)
  have h2: "\<not> isUserTurn (smallDraft\<lparr>userPickPosition := 5\<rparr>)"
    by (simp add: smallDraft_def startDraft_def loadedState_def isUserTurn_def
      currentTeamIndex_def currentPick_def userTeamIndex_def getSnakeDraftTeamIndex_def
      NUM_TEAMS_def Let_def)
  have h3: "id_p wrStranger \<notin> id_p ` set (availablePlayers smallDraft)"
    by (simp add: smallDraft_facts rbA_def rbB_def wrStranger_def newPlayer_def positionName_def)
  obtain s' where h4: "makePick wrStranger smallDraft = Inr s'"
    using makePick_total [of smallDraft wrStranger] by (auto simp: smallDraft_facts NUM_TEAMS_def)
  have w1: "handleUserPick rbA (resetDraft smallDraft) = Inr (resetDraft smallDraft)
            \<and> autoDraft noRandom (resetDraft smallDraft) = Inr (resetDraft smallDraft)"
    using h1 pick_outside_drafting_is_noop [of "resetDraft smallDraft" rbA noRandom, THEN conjunct1]
    by blast
  have w2: "handleUserPick rbA (smallDraft\<lparr>userPickPosition := 5\<rparr>)
              = Inr (smallDraft\<lparr>userPickPosition := 5\<rparr>)"
    using h2 pick_outside_drafting_is_noop
               [of "smallDraft\<lparr>userPickPosition := 5\<rparr>" rbA noRandom,
                THEN conjunct2, THEN conjunct1]
    by blast
  have w3: "availablePlayers s' = availablePlayers smallDraft
            \<and> map pk_player (draftPicks s') = map pk_player (draftPicks smallDraft) @ [wrStranger]"
    using h3 h4 pick_outside_drafting_is_noop
                  [of smallDraft wrStranger noRandom s', THEN conjunct2, THEN conjunct2]
    by blast
  have w4: "map pk_player (draftPicks s') = [wrStranger]"
    using w3 by (simp add: smallDraft_facts(4))
  have w5: "\<exists>s'. makePick wrStranger smallDraft = Inr s'
               \<and> availablePlayers s' = availablePlayers smallDraft
               \<and> map pk_player (draftPicks s') = [wrStranger]"
  proof (intro exI [of _ s'] conjI)
    show "makePick wrStranger smallDraft = Inr s'" by (fact h4)
    show "availablePlayers s' = availablePlayers smallDraft" by (rule w3 [THEN conjunct1])
    show "map pk_player (draftPicks s') = [wrStranger]" by (fact w4)
  qed
  show ?thesis
  proof (intro conjI)
    show "draftPhase (resetDraft smallDraft) \<noteq> Drafting" by (fact h1)
    show "handleUserPick rbA (resetDraft smallDraft) = Inr (resetDraft smallDraft)"
      by (rule w1 [THEN conjunct1])
    show "autoDraft noRandom (resetDraft smallDraft) = Inr (resetDraft smallDraft)"
      by (rule w1 [THEN conjunct2])
    show "\<not> isUserTurn (smallDraft\<lparr>userPickPosition := 5\<rparr>)" by (fact h2)
    show "handleUserPick rbA (smallDraft\<lparr>userPickPosition := 5\<rparr>)
            = Inr (smallDraft\<lparr>userPickPosition := 5\<rparr>)" by (fact w2)
    show "id_p wrStranger \<notin> id_p ` set (availablePlayers smallDraft)" by (fact h3)
    show "\<exists>s'. makePick wrStranger smallDraft = Inr s'
               \<and> availablePlayers s' = availablePlayers smallDraft
               \<and> map pk_player (draftPicks s') = [wrStranger]" by (fact w5)
  qed
qed

section \<open>Conservation of the pool\<close>

lemma filter_unique_id:
  assumes "drawnWithUniqueId p pool"
  shows "filter (\<lambda>q. id_p q \<noteq> id_p p) pool = remove1 p pool"
  using assms
proof (induction pool)
  case Nil
  then show ?case by (simp add: drawnWithUniqueId_def)
next
  case (Cons x xs)
  show ?case
  proof (cases "id_p x = id_p p")
    case True
    then have none: "filter (\<lambda>q. id_p q = id_p p) xs = []"
      using Cons.prems by (simp add: drawnWithUniqueId_def)
    then have no_id: "\<forall>q \<in> set xs. id_p q \<noteq> id_p p"
      by (simp add: filter_empty_conv)
    then have "p \<notin> set xs" by auto
    then have px: "p = x"
      using Cons.prems by (auto simp: drawnWithUniqueId_def)
    have f: "filter (\<lambda>q. id_p q \<noteq> id_p p) xs = xs"
      using no_id by (simp add: filter_id_conv)
    show ?thesis
      unfolding px using f [unfolded px] by simp
  next
    case False
    then have "p \<noteq> x" by auto
    then have "drawnWithUniqueId p xs"
      using Cons.prems False by (auto simp: drawnWithUniqueId_def)
    from Cons.IH [OF this] show ?thesis
      using False \<open>p \<noteq> x\<close> by auto
  qed
qed

lemma makePick_removes_one:
  assumes "drawnWithUniqueId p (availablePlayers s)" "makePick p s = Inr s'"
  shows "availablePlayers s' = remove1 p (availablePlayers s)"
    and "length (availablePlayers s') + 1 = length (availablePlayers s)"
proof -
  have av: "availablePlayers s' = filter (\<lambda>q. id_p q \<noteq> id_p p) (availablePlayers s)"
    using assms(2) by (elim makePick_fields)
  show r: "availablePlayers s' = remove1 p (availablePlayers s)"
    unfolding av by (rule filter_unique_id [OF assms(1)])
  have "p \<in> set (availablePlayers s)"
    using assms(1) by (simp add: drawnWithUniqueId_def)
  then have "0 < length (availablePlayers s)"
    by (rule length_pos_if_in_set)
  then show "length (availablePlayers s') + 1 = length (availablePlayers s)"
    unfolding r using \<open>p \<in> set (availablePlayers s)\<close> by (simp add: length_remove1)
qed

lemma picksFromPool_conserves:
  assumes "picksFromPool ps s"
  shows "\<exists>s'. applyPicks ps s = Inr s'
              \<and> length (draftPicks s') = length (draftPicks s) + length ps
              \<and> length (draftPicks s') + length (availablePlayers s')
                  = length (draftPicks s) + length (availablePlayers s)"
  using assms
proof (induction ps arbitrary: s)
  case Nil
  then show ?case by simp
next
  case (Cons p ps)
  from Cons.prems obtain s1 where s1: "makePick p s = Inr s1"
    and drawn: "drawnWithUniqueId p (availablePlayers s)"
    and rest: "picksFromPool ps s1"
    by (auto split: sum.splits)
  have len: "length (draftPicks s1) = length (draftPicks s) + 1"
    by (rule makePick_ledger_length(1) [OF s1])
  have pool: "length (availablePlayers s1) + 1 = length (availablePlayers s)"
    by (rule makePick_removes_one(2) [OF drawn s1])
  from Cons.IH [OF rest] obtain s' where
    "applyPicks ps s1 = Inr s'"
    "length (draftPicks s') = length (draftPicks s1) + length ps"
    "length (draftPicks s') + length (availablePlayers s')
       = length (draftPicks s1) + length (availablePlayers s1)"
    by auto
  then show ?case using s1 len pool by simp
qed

lemma picksFromPool_take: "picksFromPool ps s \<Longrightarrow> picksFromPool (take n ps) s"
proof (induction ps arbitrary: s n)
  case Nil
  then show ?case by simp
next
  case (Cons p ps)
  show ?case
  proof (cases n)
    case 0
    then show ?thesis by simp
  next
    case (Suc m)
    then show ?thesis
      using Cons.prems Cons.IH by (auto split: sum.splits)
  qed
qed

text \<open>
  Claim C10. A pick of a player that is in the pool and whose id no other player of the
  pool has removes exactly that player from the pool. Starting from \<open>startDraft\<close> and
  applying any sequence of such picks, after every pick (after the first \<open>n\<close> picks,
  for every \<open>n\<close>) the ledger holds \<open>n\<close> picks and the ledger length plus the size
  of the pool is the size of the full valuated pool.
\<close>

theorem pool_conservation:
  "(drawnWithUniqueId p (availablePlayers s) \<and> makePick p s = Inr s' \<longrightarrow>
      availablePlayers s' = remove1 p (availablePlayers s)
      \<and> length (availablePlayers s') + 1 = length (availablePlayers s))
   \<and> (picksFromPool ps (startDraft s0) \<longrightarrow>
        (\<forall>n \<le> length ps. \<exists>sn.
           applyPicks (take n ps) (startDraft s0) = Inr sn
           \<and> length (draftPicks sn) = n
           \<and> length (draftPicks sn) + length (availablePlayers sn) = length (allPlayers s0)))"
proof (intro conjI impI allI)
  assume "drawnWithUniqueId p (availablePlayers s) \<and> makePick p s = Inr s'"
  then show "availablePlayers s' = remove1 p (availablePlayers s)"
    and "length (availablePlayers s') + 1 = length (availablePlayers s)"
    using makePick_removes_one [of p s s'] by simp_all
next
  fix n
  assume all: "picksFromPool ps (startDraft s0)" and n: "n \<le> length ps"
  have start: "draftPicks (startDraft s0) = []"
    "availablePlayers (startDraft s0) = allPlayers s0"
    by (simp_all add: startDraft_def)
  have "picksFromPool (take n ps) (startDraft s0)"
    by (rule picksFromPool_take [OF all])
  from picksFromPool_conserves [OF this] n
  show "\<exists>sn. applyPicks (take n ps) (startDraft s0) = Inr sn
           \<and> length (draftPicks sn) = n
           \<and> length (draftPicks sn) + length (availablePlayers sn) = length (allPlayers s0)"
    by (auto simp: start min_def)
qed

theorem pool_conservation_witness:
  "drawnWithUniqueId rbA (availablePlayers smallDraft)
   \<and> (\<exists>s'. makePick rbA smallDraft = Inr s'
          \<and> availablePlayers s' = remove1 rbA (availablePlayers smallDraft))
   \<and> picksFromPool [rbA, rbB] smallDraft
   \<and> (2::nat) \<le> length [rbA, rbB]
   \<and> (\<exists>sn. applyPicks (take 2 [rbA, rbB]) smallDraft = Inr sn
          \<and> length (draftPicks sn) = 2
          \<and> length (draftPicks sn) + length (availablePlayers sn) = 2)"
proof -
  have ids: "id_p rbA \<noteq> id_p rbB"
    by (simp add: rbA_def rbB_def newPlayer_def)
  have d1: "drawnWithUniqueId rbA (availablePlayers smallDraft)"
    using ids by (simp add: drawnWithUniqueId_def smallDraft_facts)
  obtain s1 where s1: "makePick rbA smallDraft = Inr s1"
    using makePick_total [of smallDraft rbA] by (auto simp: smallDraft_facts NUM_TEAMS_def)
  have av1: "availablePlayers s1 = remove1 rbA (availablePlayers smallDraft)"
    using d1 s1 pool_conservation [of rbA smallDraft s1 "[]" smallDraft, THEN conjunct1]
    by (simp only: simp_thms)
  then have av1': "availablePlayers s1 = [rbB]"
    by (simp add: smallDraft_facts)
  have d2: "drawnWithUniqueId rbB (availablePlayers s1)"
    by (simp add: av1' drawnWithUniqueId_def)
  have "length (teamRosters s1) = NUM_TEAMS"
    using makePick_ledger_length(2) [OF s1] by (simp add: smallDraft_facts NUM_TEAMS_def)
  then obtain s2 where s2: "makePick rbB s1 = Inr s2"
    using makePick_total [of s1 rbB] by auto
  have pf: "picksFromPool [rbA, rbB] smallDraft"
    using d1 s1 d2 s2 by simp
  have two: "(2::nat) \<le> length [rbA, rbB]"
    by simp
  have all: "length (allPlayers (loadedState [rbA, rbB] 1 False)) = 2"
    by (simp add: loadedState_def)
  have "\<exists>sn. applyPicks (take 2 [rbA, rbB]) smallDraft = Inr sn
          \<and> length (draftPicks sn) = 2
          \<and> length (draftPicks sn) + length (availablePlayers sn)
              = length (allPlayers (loadedState [rbA, rbB] 1 False))"
    by (rule pool_conservation
               [THEN conjunct2, rule_format, OF pf [unfolded smallDraft_def] two,
                folded smallDraft_def])
  then have run: "\<exists>sn. applyPicks (take 2 [rbA, rbB]) smallDraft = Inr sn
          \<and> length (draftPicks sn) = 2
          \<and> length (draftPicks sn) + length (availablePlayers sn) = 2"
    by (simp only: all)
  have one: "\<exists>s'. makePick rbA smallDraft = Inr s'
          \<and> availablePlayers s' = remove1 rbA (availablePlayers smallDraft)"
  proof (intro exI [of _ s1] conjI)
    show "makePick rbA smallDraft = Inr s1" by (fact s1)
    show "availablePlayers s1 = remove1 rbA (availablePlayers smallDraft)" by (fact av1)
  qed
  show ?thesis
  proof (intro conjI)
    show "drawnWithUniqueId rbA (availablePlayers smallDraft)" by (fact d1)
    show "picksFromPool [rbA, rbB] smallDraft" by (fact pf)
    show "(2::nat) \<le> length [rbA, rbB]" by (fact two)
  qed (fact one run)+
qed

section \<open>Roster maxima\<close>

lemma withinMax_iff:
  "withinMax roster \<longleftrightarrow> (\<forall>pos. length (roster pos) \<le> max_target (ROSTER_TARGETS pos))"
proof
  assume w: "withinMax roster"
  show "\<forall>pos. length (roster pos) \<le> max_target (ROSTER_TARGETS pos)"
  proof
    fix pos
    show "length (roster pos) \<le> max_target (ROSTER_TARGETS pos)"
      using w by (cases pos) (simp_all add: withinMax_def)
  qed
next
  assume "\<forall>pos. length (roster pos) \<le> max_target (ROSTER_TARGETS pos)"
  then show "withinMax roster"
    by (simp add: withinMax_def)
qed

lemma addToRoster_withinMax:
  assumes "withinMax roster" "belowMax roster p"
  shows "withinMax (addToRoster roster p)"
  unfolding withinMax_iff
proof
  fix pos
  have "length (roster pos) \<le> max_target (ROSTER_TARGETS pos)"
    using assms(1) by (simp add: withinMax_iff)
  then show "length (addToRoster roster p pos) \<le> max_target (ROSTER_TARGETS pos)"
    using assms(2) by (simp add: addToRoster_def belowMax_def)
qed

lemma makePick_withinMax:
  assumes "makePick p s = Inr s'" "pickBelowMax p s" "list_all withinMax (teamRosters s)"
  shows "list_all withinMax (teamRosters s')"
proof -
  from assms(1) obtain t where t: "currentTeamIndex s = Some t" "t < length (teamRosters s)"
    and rs: "teamRosters s' = (teamRosters s)[t := addToRoster (teamRosters s ! t) p]"
    by (elim makePick_fields)
  have below: "belowMax (teamRosters s ! t) p"
    using assms(2) t by (simp add: pickBelowMax_def)
  have old: "\<forall>r \<in> set (teamRosters s). withinMax r"
    using assms(3) by (simp add: list_all_iff)
  then have "withinMax (teamRosters s ! t)"
    using t(2) by simp
  then have new: "withinMax (addToRoster (teamRosters s ! t) p)"
    using below by (rule addToRoster_withinMax)
  show ?thesis
    unfolding list_all_iff
  proof
    fix r assume "r \<in> set (teamRosters s')"
    then have "r \<in> insert (addToRoster (teamRosters s ! t) p) (set (teamRosters s))"
      unfolding rs using set_update_subset_insert by fast
    then show "withinMax r" using new old by auto
  qed
qed

lemma picksBelowMax_withinMax:
  assumes "picksBelowMax ps s" "list_all withinMax (teamRosters s)"
  shows "\<exists>s'. applyPicks ps s = Inr s' \<and> list_all withinMax (teamRosters s')"
  using assms
proof (induction ps arbitrary: s)
  case Nil
  then show ?case by simp
next
  case (Cons p ps)
  from Cons.prems(1) obtain s1 where s1: "makePick p s = Inr s1"
    and ok: "pickBelowMax p s" and rest: "picksBelowMax ps s1"
    by (auto split: sum.splits)
  have "list_all withinMax (teamRosters s1)"
    by (rule makePick_withinMax [OF s1 ok Cons.prems(2)])
  from Cons.IH [OF rest this] show ?case
    using s1 by simp
qed

lemma startDraft_withinMax: "list_all withinMax (teamRosters (startDraft s))"
  by (simp add: startDraft_def withinMax_def createEmptyRoster_def list_all_iff)

lemma scored_players:
  "map fst (map (\<lambda>(i, p). (p, g i p)) (zip [0..<length xs] xs)) = xs"
proof -
  have "map fst (map (\<lambda>(i, p). (p, g i p)) (zip [0..<length xs] xs))
          = map snd (zip [0..<length xs] xs)"
    by (simp add: case_prod_unfold comp_def)
  also have "\<dots> = xs"
    by (simp add: map_snd_zip)
  finally show ?thesis .
qed

lemma head_of_ranking:
  assumes "xs \<noteq> []"
  obtains p sc others where
    "sortDesc snd (map (\<lambda>(i, p). (p, g i p)) (zip [0..<length xs] xs)) = (p, sc) # others"
    "p \<in> set xs"
proof -
  let ?scored = "map (\<lambda>(i, p). (p, g i p)) (zip [0..<length xs] xs)"
  have "length (sortDesc snd ?scored) = length xs"
    by (simp add: length_sortDesc)
  then obtain y ys where ys: "sortDesc snd ?scored = y # ys"
    using assms by (cases "sortDesc snd ?scored") auto
  have "y \<in> set ?scored"
    using set_sortDesc [of snd ?scored] ys by auto
  then have "fst y \<in> fst ` set ?scored"
    by (rule imageI)
  then have "fst y \<in> set (map fst ?scored)"
    by (simp only: set_map)
  then have "fst y \<in> set xs"
    unfolding scored_players .
  then show ?thesis
    using that [of "fst y" "snd y" ys] ys by simp
qed

lemma getCPUPick_proposal:
  assumes "available \<noteq> []"
  obtains p where "getCPUPick rnd available roster rn = Some p" "p \<in> set available"
    "list_ex (belowMax roster) available \<Longrightarrow> belowMax roster p"
proof -
  define counts where "counts = (\<lambda>pos. length (roster pos))"
  define needed where "needed = neededPositionsOf counts"
  define filtered where
    "filtered = filter (\<lambda>p. counts (position p) < max_target (ROSTER_TARGETS (position p))) available"
  define candidates where "candidates = (if filtered = [] then available else filtered)"
  define urgent where "urgent = filter (\<lambda>p. position p \<in> set needed) candidates"
  define cands where
    "cands = (if needed \<noteq> []
                 \<and> int ROSTER_SIZE - int (counts QB + counts RB + counts WR + counts TE)
                     \<le> int (length needed) + 2
                 \<and> urgent \<noteq> []
              then urgent else candidates)"
  have c1: "candidates \<noteq> []" "set candidates \<subseteq> set available"
    using assms by (auto simp: candidates_def filtered_def)
  have c2: "cands \<noteq> []" "set cands \<subseteq> set candidates"
    using c1 by (auto simp: cands_def urgent_def)
  obtain p sc others where
    rk: "sortDesc snd
           (map (\<lambda>(i, p). (p, candidateScore counts needed rn (rnd i) p))
              (zip [0..<length cands] cands)) = (p, sc) # others"
    and mem: "p \<in> set cands"
    using head_of_ranking [OF c2(1), of "\<lambda>i. candidateScore counts needed rn (rnd i)"] by blast
  have "getCPUPick rnd available roster rn =
          (case sortDesc snd
                  (map (\<lambda>(i, p). (p, candidateScore counts needed rn (rnd i) p))
                     (zip [0..<length cands] cands)) of
             (p, sc) # others \<Rightarrow> Some p
           | [] \<Rightarrow> (case available of a # others \<Rightarrow> Some a | [] \<Rightarrow> None))"
    unfolding getCPUPick_def Let_def cands_def urgent_def candidates_def filtered_def
      needed_def counts_def
    using assms by (simp only: if_False)
  then have res: "getCPUPick rnd available roster rn = Some p"
    using rk by simp
  have av: "p \<in> set available"
    using mem c1 c2 by auto
  have below: "belowMax roster p" if "list_ex (belowMax roster) available"
  proof -
    have "filtered \<noteq> []"
      using that by (auto simp: filtered_def belowMax_def counts_def filter_empty_conv list_ex_iff)
    then have "p \<in> set filtered"
      using mem c2 by (auto simp: candidates_def)
    then show ?thesis
      by (simp add: filtered_def belowMax_def counts_def)
  qed
  show ?thesis
    using that [OF res av below] .
qed

text \<open>
  Claim C1, as stated, has the engine refuse a pick that takes a bucket over its maximum
  and the heuristic never propose one. In a draft over a pool of quarterbacks (maximum 2
  for each team) the user, drafting first, clicks a third quarterback at pick 25 and the
  engine applies it; at pick 26 the heuristic, which falls back to the whole pool when no
  player is at a position below its maximum, proposes a third quarterback for the second
  team. Offered one quarterback for a roster that holds two, it proposes him.
\<close>

theorem roster_max_counterexample:
  "max_target (ROSTER_TARGETS QB) = 2
   \<and> \<not> isl (runDraft qbDraftEvents qbDraft)
   \<and> length ((teamRosters (projr (runDraft qbDraftEvents qbDraft)) ! 0) QB) = 3
   \<and> length ((teamRosters (projr (runDraft qbDraftEvents qbDraft)) ! 1) QB) = 3
   \<and> length (twoQBs QB) = 2
   \<and> getCPUPick noRandom [qbNumber 2] twoQBs 3 = Some (qbNumber 2)"
proof -
  have run: "map (\<lambda>r. length (r QB)) (teamRosters (projr (runDraft qbDraftEvents qbDraft)))
               = [3, 3, 2, 2, 2, 2, 2, 2, 2, 2, 2, 2]"
    by code_simp
  then have len: "length (teamRosters (projr (runDraft qbDraftEvents qbDraft))) = 12"
    by (auto dest: arg_cong [where f = length])
  have t0: "length ((teamRosters (projr (runDraft qbDraftEvents qbDraft)) ! 0) QB) = 3"
    using nth_map [of 0 "teamRosters (projr (runDraft qbDraftEvents qbDraft))"
                     "\<lambda>r. length (r QB)"] len
    by (simp add: run)
  have t1: "length ((teamRosters (projr (runDraft qbDraftEvents qbDraft)) ! 1) QB) = 3"
    using nth_map [of 1 "teamRosters (projr (runDraft qbDraftEvents qbDraft))"
                     "\<lambda>r. length (r QB)"] len
    by (simp add: run)
  obtain s' where "runDraft qbDraftEvents qbDraft = Inr s'"
    using runDraft_in_progress [OF startDraft_in_progress] unfolding qbDraft_def by auto
  then have ok: "\<not> isl (runDraft qbDraftEvents qbDraft)"
    by simp
  obtain p where "getCPUPick noRandom [qbNumber 2] twoQBs 3 = Some p" "p \<in> set [qbNumber 2]"
    using getCPUPick_proposal [of "[qbNumber 2]" noRandom twoQBs 3] by auto
  then have cpu: "getCPUPick noRandom [qbNumber 2] twoQBs 3 = Some (qbNumber 2)"
    by simp
  show ?thesis
    using t0 t1 ok cpu by (simp add: twoQBs_def)
qed

text \<open>
  Claim C1, amended. The heuristic proposes a player of the pool whenever the pool is not
  empty, and one at a position below its maximum on the acting team's roster whenever the
  pool holds such a player. A pick at a position below its maximum on the acting team's
  roster keeps every roster within the maxima, so after any sequence of such picks from
  \<open>startDraft\<close> no bucket exceeds its maximum. (\<open>makePick\<close> and \<open>handleUserPick\<close>
  themselves check no maximum.)
\<close>

theorem picks_below_max_keep_rosters_within_max:
  "(available \<noteq> [] \<longrightarrow>
      (\<exists>p. getCPUPick rnd available roster rn = Some p \<and> p \<in> set available
           \<and> (list_ex (belowMax roster) available \<longrightarrow> belowMax roster p)))
   \<and> (makePick p s = Inr s' \<and> pickBelowMax p s \<and> list_all withinMax (teamRosters s)
        \<longrightarrow> list_all withinMax (teamRosters s'))
   \<and> (picksBelowMax ps (startDraft s0) \<longrightarrow>
        (\<exists>sn. applyPicks ps (startDraft s0) = Inr sn \<and> list_all withinMax (teamRosters sn)))"
proof (intro conjI impI)
  assume "available \<noteq> []"
  then show "\<exists>p. getCPUPick rnd available roster rn = Some p \<and> p \<in> set available
           \<and> (list_ex (belowMax roster) available \<longrightarrow> belowMax roster p)"
    by (rule getCPUPick_proposal [of available rnd roster rn]) auto
next
  assume "makePick p s = Inr s' \<and> pickBelowMax p s \<and> list_all withinMax (teamRosters s)"
  then show "list_all withinMax (teamRosters s')"
    using makePick_withinMax [of p s s'] by simp
next
  assume "picksBelowMax ps (startDraft s0)"
  then show "\<exists>sn. applyPicks ps (startDraft s0) = Inr sn \<and> list_all withinMax (teamRosters sn)"
    by (rule picksBelowMax_withinMax [OF _ startDraft_withinMax])
qed

theorem picks_below_max_keep_rosters_within_max_witness:
  "[rbA, rbB] \<noteq> []
   \<and> list_ex (belowMax createEmptyRoster) [rbA, rbB]
   \<and> (\<exists>p. getCPUPick noRandom [rbA, rbB] createEmptyRoster 1 = Some p
          \<and> belowMax createEmptyRoster p)
   \<and> pickBelowMax rbA smallDraft
   \<and> list_all withinMax (teamRosters smallDraft)
   \<and> picksBelowMax [rbA] smallDraft
   \<and> (\<exists>s'. makePick rbA smallDraft = Inr s' \<and> list_all withinMax (teamRosters s'))
   \<and> (\<exists>sn. applyPicks [rbA] smallDraft = Inr sn \<and> list_all withinMax (teamRosters sn))"
proof -
  have h1: "[rbA, rbB] \<noteq> []"
    by simp
  have h2: "list_ex (belowMax createEmptyRoster) [rbA, rbB]"
    by (simp add: belowMax_def createEmptyRoster_def rbA_def newPlayer_def)
  have w1: "\<exists>p. getCPUPick noRandom [rbA, rbB] createEmptyRoster 1 = Some p
          \<and> belowMax createEmptyRoster p"
    using h1 h2
      picks_below_max_keep_rosters_within_max
        [of "[rbA, rbB]" noRandom createEmptyRoster 1, THEN conjunct1]
    by auto
  have t0: "currentTeamIndex smallDraft = Some 0"
    by (simp add: currentTeamIndex_def currentPick_def smallDraft_facts
        getSnakeDraftTeamIndex_def NUM_TEAMS_def)
  have r0: "teamRosters smallDraft ! 0 = createEmptyRoster"
    by (simp add: smallDraft_def startDraft_def NUM_TEAMS_def)
  have h3: "pickBelowMax rbA smallDraft"
    by (simp add: pickBelowMax_def t0 r0 smallDraft_facts belowMax_def createEmptyRoster_def
        rbA_def newPlayer_def)
  have h4: "list_all withinMax (teamRosters smallDraft)"
    unfolding smallDraft_def by (rule startDraft_withinMax)
  obtain s1 where s1: "makePick rbA smallDraft = Inr s1"
    using makePick_total [of smallDraft rbA] by (auto simp: smallDraft_facts NUM_TEAMS_def)
  have h5: "picksBelowMax [rbA] smallDraft"
    using h3 s1 by simp
  have "list_all withinMax (teamRosters s1)"
    using s1 h3 h4
      picks_below_max_keep_rosters_within_max
        [of "[]" noRandom createEmptyRoster 1 rbA smallDraft s1,
         THEN conjunct2, THEN conjunct1]
    by (simp only: simp_thms)
  then have w2: "\<exists>s'. makePick rbA smallDraft = Inr s' \<and> list_all withinMax (teamRosters s')"
    using s1 by (intro exI [of _ s1]) simp
  have w3: "\<exists>sn. applyPicks [rbA] smallDraft = Inr sn \<and> list_all withinMax (teamRosters sn)"
    by (rule picks_below_max_keep_rosters_within_max
               [THEN conjunct2, THEN conjunct2, rule_format, OF h5 [unfolded smallDraft_def],
                folded smallDraft_def])
  show ?thesis
  proof (intro conjI)
    show "[rbA, rbB] \<noteq> []" by (fact h1)
    show "list_ex (belowMax createEmptyRoster) [rbA, rbB]" by (fact h2)
    show "pickBelowMax rbA smallDraft" by (fact h3)
    show "list_all withinMax (teamRosters smallDraft)" by (fact h4)
    show "picksBelowMax [rbA] smallDraft" by (fact h5)
  qed (fact w1 w2 w3)+
qed

end
